theory Spec2Isabelle
  imports Complex_Main
begin

section \<open>Common data: errors, machine sizes, vectors\<close>

text \<open>
  A C++ call either returns, throws, or runs into undefined behaviour. The two
  failures are values of \<open>error\<close>; a result is \<open>error + 'a\<close> with \<open>Inl\<close> the
  failure. \<open>RuntimeError\<close> is \<open>std::runtime_error\<close> with its message,
  \<open>OutOfRange\<close> is the \<open>std::out_of_range\<close> of \<open>vector::at\<close>,
  \<open>DivisionByZero\<close> a division, of integers or of floating-point numbers, whose
  divisor is zero, and \<open>Undefined\<close> any other undefined behaviour (dereferencing
  a past-the-end iterator, converting a non-finite floating value to \<open>int\<close>).
\<close>

datatype error = RuntimeError string | OutOfRange | DivisionByZero | Undefined

text \<open>
  \<open>size_t\<close> is a natural number below \<open>2 ^ 64\<close>; its arithmetic wraps around.
\<close>

definition size_add :: "nat \<Rightarrow> nat \<Rightarrow> nat" where
  "size_add a b = (a + b) mod 2 ^ 64"

definition size_sub :: "nat \<Rightarrow> nat \<Rightarrow> nat" where
  "size_sub a b = (a + 2 ^ 64 - b mod 2 ^ 64) mod 2 ^ 64"

definition size_mul :: "nat \<Rightarrow> nat \<Rightarrow> nat" where
  "size_mul a b = (a * b) mod 2 ^ 64"

text \<open>
  The scalar type \<open>double\<close> is read as \<open>real\<close>, with exact comparisons and
  arithmetic, wherever only the control flow and the comparisons of the
  computed numbers matter; the section on the distance computation in double
  arithmetic reads it as IEEE 754 binary64. \<open>Vec3D\<close> is \<open>std::array<double, 3>\<close>, \<open>Vec2D\<close> is
  \<open>std::array<double, 2>\<close>, \<open>Line3D\<close> is \<open>std::vector<Vec3D>\<close>.
\<close>

type_synonym Vec2D = "real \<times> real"
type_synonym Vec3D = "real \<times> real \<times> real"
type_synonym Line3D = "Vec3D list"

section \<open>Mesh3D and generate_mesh_from_borders\<close>

record Mesh3D =
  vertices :: "Vec3D list"
  indices :: "nat list"

text \<open>
  The loop of \<open>generate_mesh_from_borders\<close>:
  \<^verbatim>\<open>for (l_idx = 1, r_idx = num_pts - 2; l_idx < (num_pts >> 1); l_idx++, r_idx--)\<close>.
  The increment of \<open>l_idx\<close> cannot wrap, since \<open>l_idx < num_pts >> 1\<close>.
\<close>

function mesh_loop :: "nat \<Rightarrow> nat \<Rightarrow> nat \<Rightarrow> nat list \<Rightarrow> nat list" where
  "mesh_loop num_pts l_idx r_idx idxs =
     (if l_idx < num_pts div 2
      then mesh_loop num_pts (Suc l_idx) (size_sub r_idx 1)
             (idxs @ [l_idx, size_sub l_idx 1, size_add r_idx 1, r_idx, l_idx, size_add r_idx 1])
      else idxs)"
  by pat_completeness auto
termination
  by (relation "measure (\<lambda>(num_pts, l_idx, r_idx, idxs). num_pts div 2 - l_idx)") auto

declare mesh_loop.simps [simp del]

definition generate_mesh_from_borders :: "Line3D \<Rightarrow> Line3D \<Rightarrow> error + Mesh3D" where
  "generate_mesh_from_borders inner_border outer_border =
     (if length inner_border \<noteq> length outer_border
      then Inl (RuntimeError ''outer and inner border line should have equal number of points'')
      else
        let vs = outer_border @ rev inner_border;
            num_pts = length vs
        in Inr \<lparr>vertices = vs, indices = mesh_loop num_pts 1 (size_sub num_pts 2) []\<rparr>)"

section \<open>golden_section_search\<close>

text \<open>
  \<open>golden_section_search<T>\<close> with \<open>T = double\<close>, read over \<open>real\<close>: past the
  first test the model is the algorithm in exact arithmetic, without the
  rounding, underflow and overflow of \<open>double\<close>. The
  objective \<open>f\<close> is a pure function; the state carries, besides the locals
  \<open>a, b, c, d, yc, yd, h\<close>, the list of arguments at which \<open>f\<close> has been called,
  in call order.
\<close>

definition invphi :: real where "invphi = (sqrt 5 - 1) / 2"
definition invphi2 :: real where "invphi2 = (3 - sqrt 5) / 2"

record gss_state =
  gs_a :: real
  gs_b :: real
  gs_c :: real
  gs_d :: real
  gs_yc :: real
  gs_yd :: real
  gs_h :: real
  gs_evals :: "real list"

definition gss_step :: "(real \<Rightarrow> real) \<Rightarrow> gss_state \<Rightarrow> gss_state" where
  "gss_step f st =
     (if gs_yc st < gs_yd st
      then
        let b = gs_d st; d = gs_c st; yd = gs_yc st; h = invphi * gs_h st;
            c = gs_a st + invphi2 * h
        in st\<lparr>gs_b := b, gs_d := d, gs_yd := yd, gs_h := h, gs_c := c, gs_yc := f c,
              gs_evals := gs_evals st @ [c]\<rparr>
      else
        let a = gs_c st; c = gs_d st; yc = gs_yd st; h = invphi * gs_h st;
            d = a + invphi * h
        in st\<lparr>gs_a := a, gs_c := c, gs_yc := yc, gs_h := h, gs_d := d, gs_yd := f d,
              gs_evals := gs_evals st @ [d]\<rparr>)"

text \<open>The loop \<^verbatim>\<open>for (int k = 0; k < (n - 1); k++)\<close> runs its body \<open>nat (n - 1)\<close> times.\<close>

fun gss_loop :: "(real \<Rightarrow> real) \<Rightarrow> nat \<Rightarrow> gss_state \<Rightarrow> gss_state" where
  "gss_loop f 0 st = st"
| "gss_loop f (Suc k) st = gss_loop f k (gss_step f st)"

text \<open>
  \<^verbatim>\<open>n = static_cast<int>(std::ceil(std::log(tol / h) / std::log(invphi)))\<close>.
  For \<open>tol / h \<le> 0\<close> (which includes \<open>h = 0\<close>) the logarithm is minus infinity
  or not a number, the quotient handed to the conversion is not finite, and the
  conversion is undefined. For positive doubles \<open>tol\<close> and \<open>h\<close> the
  quotient of the logarithms is a few thousand at most, so \<open>n\<close> is an \<open>int\<close>.
\<close>

definition gss_steps :: "real \<Rightarrow> real \<Rightarrow> int" where
  "gss_steps tol h = \<lceil>ln (tol / h) / ln invphi\<rceil>"

definition gss_init :: "(real \<Rightarrow> real) \<Rightarrow> real \<Rightarrow> real \<Rightarrow> gss_state" where
  "gss_init f a b =
     (let h = b - a; c = a + invphi2 * h; d = a + invphi * h
      in \<lparr>gs_a = a, gs_b = b, gs_c = c, gs_d = d, gs_yc = f c, gs_yd = f d, gs_h = h,
          gs_evals = [c, d]\<rparr>)"

definition golden_section_search ::
  "(real \<Rightarrow> real) \<Rightarrow> real \<Rightarrow> real \<Rightarrow> real \<Rightarrow> error + real \<times> real list" where
  "golden_section_search f a b tol =
     (let h = b - a in
      if h \<le> tol then Inr (0.5 * (a + b), [])
      else if tol / h \<le> 0 then Inl Undefined
      else
        let n = gss_steps tol h;
            st = gss_loop f (nat (n - 1)) (gss_init f a b)
        in if gs_yc st < gs_yd st then Inr (0.5 * (gs_a st + gs_d st), gs_evals st)
           else Inr (0.5 * (gs_c st + gs_b st), gs_evals st))"

text \<open>
  \<open>f\<close> is unimodal on \<open>[a, b]\<close> with minimiser \<open>xm\<close>: strictly decreasing up to
  \<open>xm\<close>, strictly increasing from it.
\<close>

definition unimodal_on :: "(real \<Rightarrow> real) \<Rightarrow> real \<Rightarrow> real \<Rightarrow> real \<Rightarrow> bool" where
  "unimodal_on f a b xm \<longleftrightarrow>
     a \<le> xm \<and> xm \<le> b \<and>
     (\<forall>x y. a \<le> x \<and> x < y \<and> y \<le> xm \<longrightarrow> f y < f x) \<and>
     (\<forall>x y. xm \<le> x \<and> x < y \<and> y \<le> b \<longrightarrow> f x < f y)"

text \<open>
  The bracket whose midpoint the last two statements return: \<open>[a, d]\<close> or
  \<open>[c, b]\<close>, the bracket the next iteration would have kept.
\<close>

definition final_bracket :: "gss_state \<Rightarrow> real \<times> real" where
  "final_bracket st = (if gs_yc st < gs_yd st then (gs_a st, gs_d st) else (gs_c st, gs_b st))"

text \<open>The loop invariant, for a minimiser \<open>xm\<close> of \<open>f\<close> on the initial bracket \<open>[a0, b0]\<close>.\<close>

definition gss_inv :: "(real \<Rightarrow> real) \<Rightarrow> real \<Rightarrow> real \<Rightarrow> real \<Rightarrow> gss_state \<Rightarrow> bool" where
  "gss_inv f a0 b0 xm st \<longleftrightarrow>
     0 < gs_h st \<and> gs_b st - gs_a st = gs_h st \<and>
     gs_c st = gs_a st + invphi2 * gs_h st \<and> gs_d st = gs_a st + invphi * gs_h st \<and>
     gs_yc st = f (gs_c st) \<and> gs_yd st = f (gs_d st) \<and>
     a0 \<le> gs_a st \<and> gs_b st \<le> b0 \<and> gs_a st \<le> xm \<and> xm \<le> gs_b st"

section \<open>rdp\<close>

text \<open>
  \<open>rdp<T, Dim>\<close> with \<open>T = double\<close>, modelled by \<open>real\<close>. A \<open>Vec<T, Dim>\<close> is the
  list of its \<open>Dim\<close> components; all vectors of one call have the same length
  \<open>Dim \<ge> 1\<close>, so the loops \<^verbatim>\<open>for (dim = 0; dim < Dim; dim++)\<close> over two arrays
  are \<open>map2\<close> and \<open>zip\<close>, and an accumulation \<^verbatim>\<open>x += ...\<close> is a \<open>foldl\<close>.
\<close>

type_synonym vec = "real list"

text \<open>\<open>std::vector::at\<close> throws \<open>std::out_of_range\<close> outside the vector.\<close>

definition vector_at :: "'a list \<Rightarrow> nat \<Rightarrow> error + 'a" where
  "vector_at xs i = (if i < length xs then Inr (xs ! i) else Inl OutOfRange)"

text \<open>
  The division, with a zero divisor made visible. Over \<open>real\<close> nothing
  overflows and there is no NaN; the same statements over \<open>double\<close> are the
  subject of a section of their own below.
\<close>

definition checked_div :: "real \<Rightarrow> real \<Rightarrow> error + real" where
  "checked_div x y = (if y = 0 then Inl DivisionByZero else Inr (x / y))"

fun collect :: "(error + 'a) list \<Rightarrow> error + 'a list" where
  "collect [] = Inr []"
| "collect (r # rs) =
     (case r of
        Inl e \<Rightarrow> Inl e
      | Inr x \<Rightarrow> (case collect rs of Inl e \<Rightarrow> Inl e | Inr xs \<Rightarrow> Inr (x # xs)))"

text \<open>\<^verbatim>\<open>if (mag > 0.0) for (dim ...) delta.at(dim) = delta.at(dim) / mag;\<close>\<close>

definition normalise :: "vec \<Rightarrow> real \<Rightarrow> error + vec" where
  "normalise delta mag =
     (if mag > 0 then collect (map (\<lambda>x. checked_div x mag) delta) else Inr delta)"

text \<open>
  The body of the loop over \<open>idx\<close>, up to the distance \<open>d\<close>, for
  \<open>p_start = points.at(start_idx)\<close>, \<open>p_last = points.at(last_idx)\<close> and
  \<open>p = points.at(idx)\<close>. \<open>std::pow(x, 2.0)\<close> is \<open>x\<^sup>2\<close>.
\<close>

definition point_line_distance :: "vec \<Rightarrow> vec \<Rightarrow> vec \<Rightarrow> error + real" where
  "point_line_distance p_start p_last p =
     (let delta = map2 (-) p_last p_start;
          mag = sqrt (foldl (\<lambda>m x. m + x\<^sup>2) 0 delta)
      in case normalise delta mag of
           Inl e \<Rightarrow> Inl e
         | Inr delta \<Rightarrow>
             let pv = map2 (-) p p_start;
                 pvdot = foldl (\<lambda>s (dl, v). s + dl * v) 0 (zip delta pv);
                 ds = map (\<lambda>dl. pvdot * dl) delta;
                 a = map2 (-) pv ds;
                 d = sqrt (foldl (\<lambda>s x. s + x\<^sup>2) 0 a)
             in Inr d)"

text \<open>
  The loop \<^verbatim>\<open>for (idx = start_idx + step; idx < last_idx; idx += step)\<close>, with
  the pair \<open>(d_max, d_max_idx)\<close> as its state. A computation that does not
  return is \<open>None\<close>.
\<close>

partial_function (option) rdp_loop ::
  "vec list \<Rightarrow> nat \<Rightarrow> nat \<Rightarrow> nat \<Rightarrow> nat \<Rightarrow> real \<times> nat \<Rightarrow> (error + real \<times> nat) option" where
  "rdp_loop points start_idx step last_idx idx acc =
     (if idx < last_idx then
        (case vector_at points last_idx of
           Inl e \<Rightarrow> Some (Inl e)
         | Inr p_last \<Rightarrow>
        (case vector_at points start_idx of
           Inl e \<Rightarrow> Some (Inl e)
         | Inr p_start \<Rightarrow>
        (case vector_at points idx of
           Inl e \<Rightarrow> Some (Inl e)
         | Inr p \<Rightarrow>
        (case point_line_distance p_start p_last p of
           Inl e \<Rightarrow> Some (Inl e)
         | Inr d \<Rightarrow>
             rdp_loop points start_idx step last_idx (size_add idx step)
               (if d > fst acc then (d, idx) else acc)))))
      else Some (Inr acc))"

text \<open>
  The parameter \<open>_end_idx\<close> is an \<open>int\<close> of 32 bits. A \<open>size_t\<close> passed for it is
  converted modulo \<open>2 ^ 32\<close>.
\<close>

definition int_of_size :: "nat \<Rightarrow> int" where
  "int_of_size n =
     (let m = int (n mod 2 ^ 32) in if m < 2 ^ 31 then m else m - 2 ^ 32)"

text \<open>
  The first two statements of \<open>rdp\<close>:
  \<^verbatim>\<open>end_idx = (_end_idx > 0) ? static_cast<size_t>(_end_idx) : points.size()\<close> and
  \<^verbatim>\<open>last_idx = static_cast<size_t>((end_idx - start_idx - 1) / step) * step + start_idx\<close>.
\<close>

definition end_idx_of :: "'a list \<Rightarrow> int \<Rightarrow> nat" where
  "end_idx_of points end_idx_arg = (if end_idx_arg > 0 then nat end_idx_arg else length points)"

definition last_idx_of :: "nat \<Rightarrow> nat \<Rightarrow> nat \<Rightarrow> nat" where
  "last_idx_of start_idx step end_idx =
     size_add (size_mul (size_sub (size_sub end_idx start_idx) 1 div step) step) start_idx"

text \<open>
  \<open>rdp points epsilon out start_idx step end_idx_arg\<close> returns the new contents
  of the output vector \<open>out\<close>. A \<open>step\<close> of zero is an integer division by zero
  in the computation of \<open>last_idx\<close>; \<open>rec_results_1.end() - 1\<close> on an empty vector
  leaves the vector, which is undefined behaviour.
\<close>

partial_function (option) rdp ::
  "vec list \<Rightarrow> real \<Rightarrow> vec list \<Rightarrow> nat \<Rightarrow> nat \<Rightarrow> int \<Rightarrow> (error + vec list) option" where
  "rdp points epsilon out start_idx step end_idx_arg =
     (let end_idx = end_idx_of points end_idx_arg in
      if step = 0 then Some (Inl DivisionByZero)
      else
        let last_idx = last_idx_of start_idx step end_idx in
        if size_sub (size_add last_idx 1) start_idx < 2 then Some (Inr out)
        else
          Option.bind (rdp_loop points start_idx step last_idx (size_add start_idx step) (0, 0))
            (\<lambda>r. case r of
               Inl e \<Rightarrow> Some (Inl e)
             | Inr (d_max, d_max_idx) \<Rightarrow>
                 if d_max > epsilon then
                   Option.bind
                     (rdp points epsilon [] start_idx step (int_of_size (size_add d_max_idx 1)))
                     (\<lambda>r1. case r1 of
                        Inl e \<Rightarrow> Some (Inl e)
                      | Inr rec_results_1 \<Rightarrow>
                          Option.bind (rdp points epsilon [] d_max_idx step (int_of_size end_idx))
                            (\<lambda>r2. case r2 of
                               Inl e \<Rightarrow> Some (Inl e)
                             | Inr rec_results_2 \<Rightarrow>
                                 if rec_results_1 = [] then Some (Inl Undefined)
                                 else Some (Inr (butlast rec_results_1 @ rec_results_2))))
                 else
                   (case vector_at points start_idx of
                      Inl e \<Rightarrow> Some (Inl e)
                    | Inr p_start \<Rightarrow>
                   (case vector_at points last_idx of
                      Inl e \<Rightarrow> Some (Inl e)
                    | Inr p_last \<Rightarrow> Some (Inr [p_start, p_last])))))"

subsection \<open>Auxiliary definitions for the proofs about rdp\<close>

text \<open>The distance without the error channel.\<close>

definition pdist :: "vec \<Rightarrow> vec \<Rightarrow> vec \<Rightarrow> real" where
  "pdist p_start p_last p =
     (let delta0 = map2 (-) p_last p_start;
          mag = sqrt (foldl (\<lambda>m x. m + x\<^sup>2) 0 delta0);
          delta = (if mag > 0 then map (\<lambda>x. x / mag) delta0 else delta0);
          pv = map2 (-) p p_start;
          pvdot = foldl (\<lambda>s (dl, v). s + dl * v) 0 (zip delta pv);
          ds = map (\<lambda>dl. pvdot * dl) delta;
          a = map2 (-) pv ds
      in sqrt (foldl (\<lambda>s x. s + x\<^sup>2) 0 a))"

text \<open>
  The search for the farthest point as a recursion over the list of the
  intermediate points, the first of them at index \<open>idx\<close>.
\<close>

fun far_scan :: "vec \<Rightarrow> vec \<Rightarrow> vec list \<Rightarrow> nat \<Rightarrow> nat \<Rightarrow> real \<times> nat \<Rightarrow> real \<times> nat" where
  "far_scan a b [] idx step acc = acc"
| "far_scan a b (p # ps) idx step acc =
     far_scan a b ps (idx + step) step (if pdist a b p > fst acc then (pdist a b p, idx) else acc)"

text \<open>The points of the range: \<open>start\<close>, \<open>start + step\<close>, ..., \<open>start + q * step\<close>.\<close>

definition range_pts :: "'a list \<Rightarrow> nat \<Rightarrow> nat \<Rightarrow> nat \<Rightarrow> 'a list" where
  "range_pts points start step q = map (\<lambda>k. points ! (start + k * step)) [0..<Suc q]"

text \<open>The simplification as a total function on the list of the points of the range.\<close>

function rdp_list :: "real \<Rightarrow> vec list \<Rightarrow> vec list" where
  "rdp_list eps xs =
     (if length xs < 2 then []
      else
        let r = far_scan (hd xs) (last xs) (butlast (tl xs)) 1 1 (0, 0) in
        if fst r > eps \<and> 0 < snd r \<and> Suc (snd r) < length xs
        then butlast (rdp_list eps (take (Suc (snd r)) xs)) @ rdp_list eps (drop (snd r) xs)
        else [hd xs, last xs])"
  by pat_completeness auto
termination
  by (relation "measure (\<lambda>(eps, xs). length xs)") auto

declare rdp_list.simps [simp del]

section \<open>The distance computation of rdp in double arithmetic\<close>

text \<open>
  Whether a division by zero or a NaN can arise depends on the arithmetic of
  \<open>double\<close> itself: overflow to infinity, NaN, rounding. A value of the IEEE 754
  binary64 format is a finite number, an infinity or NaN; the sign of a zero
  is not kept (it decides only the sign of a quotient by zero).
\<close>

datatype double = is_Fin: Fin real | PInf | MInf | NaN

text \<open>
  Rounding to nearest, ties to even: the exponent of \<open>x\<close> is that of its
  binade, not below that of the subnormal numbers; the significand has 53 bits.
  A number of magnitude \<open>2 ^ 1024 - 2 ^ 970\<close> or more rounds to an infinity.
\<close>

definition ulp_exp :: "real \<Rightarrow> int" where
  "ulp_exp x = max \<lfloor>log 2 \<bar>x\<bar>\<rfloor> (- 1022) - 52"

definition round_even :: "real \<Rightarrow> int" where
  "round_even y =
     (let f = \<lfloor>y\<rfloor> in
      if y - of_int f < 1 / 2 then f
      else if 1 / 2 < y - of_int f then f + 1
      else if even f then f else f + 1)"

definition rnd :: "real \<Rightarrow> real" where
  "rnd x =
     (if x = 0 then 0
      else of_int (round_even (x / 2 powr of_int (ulp_exp x))) * 2 powr of_int (ulp_exp x))"

definition to_double :: "real \<Rightarrow> double" where
  "to_double x =
     (if 2 ^ 1024 - 2 ^ 970 \<le> x then PInf
      else if x \<le> - (2 ^ 1024 - 2 ^ 970) then MInf
      else Fin (rnd x))"

text \<open>The operations of IEEE 754 that the computation uses.\<close>

fun fadd :: "double \<Rightarrow> double \<Rightarrow> double" where
  "fadd (Fin x) (Fin y) = to_double (x + y)"
| "fadd NaN y = NaN"
| "fadd x NaN = NaN"
| "fadd PInf MInf = NaN"
| "fadd MInf PInf = NaN"
| "fadd PInf y = PInf"
| "fadd x PInf = PInf"
| "fadd MInf y = MInf"
| "fadd x MInf = MInf"

fun fneg :: "double \<Rightarrow> double" where
  "fneg (Fin x) = Fin (- x)"
| "fneg PInf = MInf"
| "fneg MInf = PInf"
| "fneg NaN = NaN"

definition fsub :: "double \<Rightarrow> double \<Rightarrow> double" where
  "fsub x y = fadd x (fneg y)"

fun fmul :: "double \<Rightarrow> double \<Rightarrow> double" where
  "fmul (Fin x) (Fin y) = to_double (x * y)"
| "fmul NaN y = NaN"
| "fmul x NaN = NaN"
| "fmul (Fin x) PInf = (if x = 0 then NaN else if 0 < x then PInf else MInf)"
| "fmul (Fin x) MInf = (if x = 0 then NaN else if 0 < x then MInf else PInf)"
| "fmul PInf (Fin y) = (if y = 0 then NaN else if 0 < y then PInf else MInf)"
| "fmul MInf (Fin y) = (if y = 0 then NaN else if 0 < y then MInf else PInf)"
| "fmul PInf PInf = PInf"
| "fmul MInf MInf = PInf"
| "fmul PInf MInf = MInf"
| "fmul MInf PInf = MInf"

text \<open>
  The division, with the division by zero made visible: its result would be an
  infinity or, for \<open>0 / 0\<close>, NaN.
\<close>

fun fdiv :: "double \<Rightarrow> double \<Rightarrow> error + double" where
  "fdiv x (Fin y) =
     (if y = 0 then Inl DivisionByZero
      else case x of
        Fin x' \<Rightarrow> Inr (to_double (x' / y))
      | PInf \<Rightarrow> Inr (if 0 < y then PInf else MInf)
      | MInf \<Rightarrow> Inr (if 0 < y then MInf else PInf)
      | NaN \<Rightarrow> Inr NaN)"
| "fdiv x NaN = Inr NaN"
| "fdiv (Fin x) y = Inr (Fin 0)"
| "fdiv x y = Inr NaN"

fun fsqrt :: "double \<Rightarrow> double" where
  "fsqrt (Fin x) = (if x < 0 then NaN else to_double (sqrt x))"
| "fsqrt PInf = PInf"
| "fsqrt MInf = NaN"
| "fsqrt NaN = NaN"

text \<open>The comparison \<open>x < y\<close>; every comparison with NaN is false.\<close>

fun fless :: "double \<Rightarrow> double \<Rightarrow> bool" where
  "fless (Fin x) (Fin y) \<longleftrightarrow> x < y"
| "fless NaN y \<longleftrightarrow> False"
| "fless x NaN \<longleftrightarrow> False"
| "fless x MInf \<longleftrightarrow> False"
| "fless PInf y \<longleftrightarrow> False"
| "fless MInf y \<longleftrightarrow> True"
| "fless x PInf \<longleftrightarrow> True"

text \<open>
  The statements of the loop body over \<open>double\<close>, as in the source:
  \<^verbatim>\<open>delta[dim] = points.at(last_idx)[dim] - points.at(start_idx)[dim]\<close>,
  \<^verbatim>\<open>mag += std::pow(delta.at(dim), 2.0)\<close> from \<open>mag(0)\<close>, \<^verbatim>\<open>mag = std::sqrt(mag)\<close>,
  \<^verbatim>\<open>if (mag > 0.0) delta.at(dim) = delta.at(dim) / mag\<close>, and so on up to the
  distance \<open>d\<close>. \<open>std::pow(x, 2.0)\<close> is the rounded square.
\<close>

definition delta_fp :: "double list \<Rightarrow> double list \<Rightarrow> double list" where
  "delta_fp p_last p_start = map2 fsub p_last p_start"

definition mag_fp :: "double list \<Rightarrow> double" where
  "mag_fp delta = fsqrt (foldl (\<lambda>m x. fadd m (fmul x x)) (Fin 0) delta)"

definition normalise_fp :: "double list \<Rightarrow> double \<Rightarrow> error + double list" where
  "normalise_fp delta mag =
     (if fless (Fin 0) mag then collect (map (\<lambda>x. fdiv x mag) delta) else Inr delta)"

definition point_line_distance_fp ::
  "double list \<Rightarrow> double list \<Rightarrow> double list \<Rightarrow> error + double" where
  "point_line_distance_fp p_start p_last p =
     (let delta = delta_fp p_last p_start;
          mag = mag_fp delta
      in case normalise_fp delta mag of
           Inl e \<Rightarrow> Inl e
         | Inr delta \<Rightarrow>
             let pv = map2 fsub p p_start;
                 pvdot = foldl (\<lambda>s (dl, v). fadd s (fmul dl v)) (Fin 0) (zip delta pv);
                 ds = map (\<lambda>dl. fmul pvdot dl) delta;
                 a = map2 fsub pv ds;
                 d = fsqrt (foldl (\<lambda>s x. fadd s (fmul x x)) (Fin 0) a)
             in Inr d)"

section \<open>Box2D and get_bbox_for_s_values\<close>

record Box2D =
  box_min :: Vec2D
  box_max :: Vec2D
  center :: Vec2D
  width :: real
  height :: real

text \<open>
  Modelled from the spec: the constructor \<open>Box2D(Vec2D min, Vec2D max)\<close> is
  declared in the source and defined in a file that is not part of it. The
  box keeps the two corners, \<open>center = (min + max) / 2\<close>, and width and height
  are derived from them.
\<close>

definition Box2D_of :: "Vec2D \<Rightarrow> Vec2D \<Rightarrow> Box2D" where
  "Box2D_of mn mx =
     \<lparr>box_min = mn, box_max = mx,
      center = ((fst mn + fst mx) / 2, (snd mn + snd mx) / 2),
      width = fst mx - fst mn, height = snd mx - snd mn\<rparr>"

text \<open>
  \<open>std::minmax_element(first, last, cmp)\<close> of the standard library returns the
  iterators to the first smallest and to the last largest element, and
  \<open>(first, first)\<close> for an empty range. An iterator is its offset from
  \<open>begin()\<close>; the offset \<open>length xs\<close> is \<open>end()\<close>.
\<close>

fun minmax_scan ::
  "('a \<Rightarrow> 'a \<Rightarrow> bool) \<Rightarrow> 'a list \<Rightarrow> nat \<Rightarrow> nat \<times> 'a \<Rightarrow> nat \<times> 'a \<Rightarrow> nat \<times> nat" where
  "minmax_scan cmp [] i (mn, vmn) (mx, vmx) = (mn, mx)"
| "minmax_scan cmp (x # xs) i (mn, vmn) (mx, vmx) =
     minmax_scan cmp xs (Suc i)
       (if cmp x vmn then (i, x) else (mn, vmn))
       (if cmp x vmx then (mx, vmx) else (i, x))"

definition minmax_element :: "('a \<Rightarrow> 'a \<Rightarrow> bool) \<Rightarrow> 'a list \<Rightarrow> nat \<times> nat" where
  "minmax_element cmp xs =
     (case xs of [] \<Rightarrow> (0, 0) | x # rest \<Rightarrow> minmax_scan cmp rest 1 (0, x) (0, x))"

text \<open>Dereferencing an iterator; at \<open>end()\<close> the behaviour is undefined.\<close>

definition deref :: "'a list \<Rightarrow> nat \<Rightarrow> error + 'a" where
  "deref xs i = (if i < length xs then Inr (xs ! i) else Inl Undefined)"

definition get_bbox_for_s_values :: "'t list \<Rightarrow> ('t \<Rightarrow> Vec2D) \<Rightarrow> error + Box2D" where
  "get_bbox_for_s_values s_values get_xyz =
     (let points = map get_xyz s_values;
          iter_min_max_x = minmax_element (\<lambda>lhs rhs. fst lhs < fst rhs) points;
          iter_min_max_y = minmax_element (\<lambda>lhs rhs. snd lhs < snd rhs) points
      in case deref points (fst iter_min_max_x) of Inl e \<Rightarrow> Inl e | Inr x_min \<Rightarrow>
         case deref points (fst iter_min_max_y) of Inl e \<Rightarrow> Inl e | Inr y_min \<Rightarrow>
         case deref points (snd iter_min_max_x) of Inl e \<Rightarrow> Inl e | Inr x_max \<Rightarrow>
         case deref points (snd iter_min_max_y) of Inl e \<Rightarrow> Inl e | Inr y_max \<Rightarrow>
           Inr (Box2D_of (fst x_min, snd y_min) (fst x_max, snd y_max)))"

section \<open>Road, RoadSet and get_lanesection\<close>

text \<open>
  The members \<open>id\<close>, \<open>junction\<close>, \<open>length\<close> and \<open>s0_to_lanesection\<close> of
  \<open>Road\<close>; the splines and the reference line play no part in what follows.
  A \<open>std::map<double, V>\<close> is the list of its entries in iteration order, that
  is with strictly increasing keys.
\<close>

record 'ls Road =
  road_id :: int
  junction :: int
  road_length :: real
  s0_to_lanesection :: "(real \<times> 'ls) list"

text \<open>
  A non-null \<open>std::shared_ptr<C>\<close>: the address of the object and the object
  read through it. Two pointers to distinct objects differ in the address.
\<close>

datatype 'c shared_ptr = SharedPtr (addr: nat) (pointee: 'c)

text \<open>
  \<open>SharedPtrCmp<C, T, member>::operator()\<close>:
  \<^verbatim>\<open>return (*lhs).*member < (*rhs).*member;\<close>
\<close>

definition SharedPtrCmp :: "('c \<Rightarrow> 't::linorder) \<Rightarrow> 'c shared_ptr \<Rightarrow> 'c shared_ptr \<Rightarrow> bool" where
  "SharedPtrCmp member lhs rhs \<longleftrightarrow> member (pointee lhs) < member (pointee rhs)"

text \<open>
  \<open>std::set<K, Compare>\<close> of the standard library, as the list of its elements
  in iteration order. \<open>insert\<close> puts the element before the first one it is
  ordered before, and leaves the set unchanged if an equivalent element
  (neither ordered before the other) is met.
\<close>

fun set_insert :: "('k \<Rightarrow> 'k \<Rightarrow> bool) \<Rightarrow> 'k \<Rightarrow> 'k list \<Rightarrow> 'k list" where
  "set_insert cmp x [] = [x]"
| "set_insert cmp x (y # ys) =
     (if cmp x y then x # y # ys
      else if cmp y x then y # set_insert cmp x ys
      else y # ys)"

text \<open>\<^verbatim>\<open>using RoadSet = std::set<std::shared_ptr<Road>, SharedPtrCmp<Road, int, &Road::id>>\<close>\<close>

type_synonym 'ls RoadSet = "'ls Road shared_ptr list"

definition RoadSet_insert :: "'ls Road shared_ptr \<Rightarrow> 'ls RoadSet \<Rightarrow> 'ls RoadSet" where
  "RoadSet_insert r s = set_insert (SharedPtrCmp road_id) r s"

definition RoadSet_of :: "'ls Road shared_ptr list \<Rightarrow> 'ls RoadSet" where
  "RoadSet_of rs = foldl (\<lambda>s r. RoadSet_insert r s) [] rs"

text \<open>
  Modelled from the spec: \<open>Road::get_lanesection\<close> is declared in the source and
  defined in a file that is not part of it. It returns the entry of
  \<open>s0_to_lanesection\<close> with the greatest key \<open>\<le> s\<close>, a floor lookup over the
  ordered map, and signals "no section found" (\<open>None\<close>) for \<open>s\<close> outside
  \<open>[0, length)\<close>.
\<close>

fun floor_lookup :: "(real \<times> 'v) list \<Rightarrow> real \<Rightarrow> 'v option" where
  "floor_lookup [] s = None"
| "floor_lookup ((k, v) # m) s =
     (if k \<le> s then (case floor_lookup m s of None \<Rightarrow> Some v | Some w \<Rightarrow> Some w)
      else floor_lookup m s)"

definition get_lanesection :: "'ls Road \<Rightarrow> real \<Rightarrow> 'ls option" where
  "get_lanesection road s =
     (if s < 0 \<or> road_length road \<le> s then None
      else floor_lookup (s0_to_lanesection road) s)"

text \<open>
  The invariant of the data model: the keys are strictly increasing, the first
  key is 0, and all keys are in \<open>[0, length)\<close>.
\<close>

definition road_invariant :: "'ls Road \<Rightarrow> bool" where
  "road_invariant road \<longleftrightarrow>
     sorted_wrt (<) (map fst (s0_to_lanesection road)) \<and>
     s0_to_lanesection road \<noteq> [] \<and>
     fst (hd (s0_to_lanesection road)) = 0 \<and>
     list_all (\<lambda>k. 0 \<le> k \<and> k < road_length road) (map fst (s0_to_lanesection road))"

section \<open>Properties of generate_mesh_from_borders\<close>

lemma size_sub_le: "b \<le> a \<Longrightarrow> a < 2 ^ 64 \<Longrightarrow> size_sub a b = a - b"
proof -
  assume le: "b \<le> a" and lt: "a < 2 ^ 64"
  then have "a + 2 ^ 64 - b mod 2 ^ 64 = (a - b) + 2 ^ 64" by simp
  moreover have "a - b < 2 ^ 64" using lt by simp
  ultimately show ?thesis by (simp add: size_sub_def)
qed

lemma size_add_small: "a + b < 2 ^ 64 \<Longrightarrow> size_add a b = a + b"
  by (simp add: size_add_def)

text \<open>
  The loop, unrolled: started at \<open>l\<close> and \<open>r\<close> with \<open>l + r + 1 = num_pts\<close>, it
  appends one patch of six indices for each \<open>l\<close> up to \<open>num_pts div 2\<close>.
\<close>

lemma mesh_loop_length:
  "l + r + 1 = num_pts \<Longrightarrow> 1 \<le> l \<Longrightarrow> num_pts < 2 ^ 64 \<Longrightarrow>
   length (mesh_loop num_pts l r idxs) = length idxs + 6 * (num_pts div 2 - l)"
proof (induction num_pts l r idxs rule: mesh_loop.induct)
  case (1 num_pts l_idx r_idx idxs)
  show ?case
  proof (cases "l_idx < num_pts div 2")
    case True
    with "1.prems" have r: "1 \<le> r_idx" "r_idx < 2 ^ 64" by auto
    have "length (mesh_loop num_pts (Suc l_idx) (size_sub r_idx 1)
            (idxs @ [l_idx, size_sub l_idx 1, size_add r_idx 1, r_idx, l_idx, size_add r_idx 1]))
          = length (idxs @ [l_idx, size_sub l_idx 1, size_add r_idx 1, r_idx, l_idx, size_add r_idx 1])
            + 6 * (num_pts div 2 - Suc l_idx)"
      using True "1.prems" r by (intro "1.IH") (auto simp: size_sub_le)
    then show ?thesis
      using True by (subst mesh_loop.simps) auto
  next
    case False
    then show ?thesis by (subst mesh_loop.simps) simp
  qed
qed

lemma mesh_loop_bound:
  "l + r + 1 = num_pts \<Longrightarrow> 1 \<le> l \<Longrightarrow> num_pts < 2 ^ 64 \<Longrightarrow>
   \<forall>i \<in> set idxs. i < num_pts \<Longrightarrow>
   \<forall>i \<in> set (mesh_loop num_pts l r idxs). i < num_pts"
proof (induction num_pts l r idxs rule: mesh_loop.induct)
  case (1 num_pts l_idx r_idx idxs)
  show ?case
  proof (cases "l_idx < num_pts div 2")
    case True
    with "1.prems" have r: "1 \<le> r_idx" "r_idx < 2 ^ 64" "r_idx + 1 < 2 ^ 64" by auto
    have "\<forall>i \<in> set (mesh_loop num_pts (Suc l_idx) (size_sub r_idx 1)
            (idxs @ [l_idx, size_sub l_idx 1, size_add r_idx 1, r_idx, l_idx, size_add r_idx 1])).
          i < num_pts"
      using True "1.prems" r
      by (intro "1.IH") (auto simp: size_sub_le size_add_small)
    then show ?thesis
      using True by (subst mesh_loop.simps) simp
  next
    case False
    with "1.prems" show ?thesis by (subst mesh_loop.simps) simp
  qed
qed

text \<open>
  Claim C3. Called with an inner and an outer border of different point counts,
  \<open>generate_mesh_from_borders\<close> throws the runtime error and returns no mesh:
  the check is the first statement, before any vertex or index is produced.
\<close>

theorem generate_mesh_mismatch_throws:
  "length inner_border \<noteq> length outer_border \<Longrightarrow>
   generate_mesh_from_borders inner_border outer_border =
     Inl (RuntimeError ''outer and inner border line should have equal number of points'')"
  by (simp add: generate_mesh_from_borders_def)

theorem generate_mesh_mismatch_throws_witness:
  "length [(0, 0, 0), (1, 0, 0), (2, 0, 0) :: Vec3D] \<noteq>
     length [(0, 1, 0), (1, 1, 0), (2, 1, 0), (3, 1, 0) :: Vec3D] \<and>
   generate_mesh_from_borders [(0, 0, 0), (1, 0, 0), (2, 0, 0)]
     [(0, 1, 0), (1, 1, 0), (2, 1, 0), (3, 1, 0)] =
     Inl (RuntimeError ''outer and inner border line should have equal number of points'')"
  using generate_mesh_mismatch_throws
    [of "[(0, 0, 0), (1, 0, 0), (2, 0, 0)]" "[(0, 1, 0), (1, 1, 0), (2, 1, 0), (3, 1, 0)]"]
  by simp

text \<open>
  Claim C4. For two borders of \<open>N\<close> points each (the \<open>2 * N\<close> vertices counted in
  a \<open>size_t\<close>), the mesh is returned; its vertex buffer is the outer border
  followed by the reversed inner border, \<open>2 * N\<close> vertices; its index buffer has
  \<open>6 * (N - 1)\<close> entries, that is \<open>2 * (N - 1)\<close> triangles (for \<open>N = 0\<close> the
  buffer is empty: the subtraction is the one of the naturals; for \<open>N \<ge> 1\<close> the
  count is also given over the integers); every index is below the number of
  vertices.
\<close>

theorem generate_mesh_equal_borders:
  assumes "length inner_border = N" and "length outer_border = N" and "2 * N < 2 ^ 64"
  shows "\<exists>m. generate_mesh_from_borders inner_border outer_border = Inr m \<and>
           vertices m = outer_border @ rev inner_border \<and>
           length (vertices m) = 2 * N \<and>
           length (indices m) = 3 * (2 * (N - 1)) \<and>
           length (indices m) = 6 * (N - 1) \<and>
           (1 \<le> N \<longrightarrow> int (length (indices m)) = 6 * (int N - 1)) \<and>
           (\<forall>i \<in> set (indices m). i < length (vertices m))"
proof (cases "N = 0")
  case True
  with assms show ?thesis
    by (simp add: generate_mesh_from_borders_def mesh_loop.simps [of 0])
next
  case False
  let ?n = "2 * N"
  from False assms(3) have sub: "size_sub ?n 2 = ?n - 2"
    by (intro size_sub_le) auto
  have len: "length (mesh_loop ?n 1 (?n - 2) []) = 6 * (N - 1)"
    using False assms(3) mesh_loop_length [of 1 "?n - 2" ?n "[]"] by simp
  have bnd: "\<forall>i \<in> set (mesh_loop ?n 1 (?n - 2) []). i < ?n"
    using False assms(3) by (intro mesh_loop_bound) auto
  have two: "N + N = 2 * N" by simp
  have leni: "int (length (mesh_loop ?n 1 (?n - 2) [])) = 6 * (int N - 1)"
    using False unfolding len by (simp add: of_nat_diff)
  from assms(1,2) len leni bnd sub show ?thesis
    by (simp add: generate_mesh_from_borders_def Let_def two)
qed

theorem generate_mesh_equal_borders_witness:
  "length [(0, 0, 0), (1, 0, 0), (2, 0, 0), (3, 0, 0) :: Vec3D] = 4 \<and>
   length [(0, 1, 0), (1, 1, 0), (2, 1, 0), (3, 1, 0) :: Vec3D] = 4 \<and>
   (2 :: nat) * 4 < 2 ^ 64 \<and>
   (\<exists>m. generate_mesh_from_borders [(0, 0, 0), (1, 0, 0), (2, 0, 0), (3, 0, 0)]
          [(0, 1, 0), (1, 1, 0), (2, 1, 0), (3, 1, 0)] = Inr m \<and>
        length (vertices m) = 8 \<and> length (indices m) = 18 \<and>
        (\<forall>i \<in> set (indices m). i < length (vertices m)))"
  using generate_mesh_equal_borders
    [of "[(0, 0, 0), (1, 0, 0), (2, 0, 0), (3, 0, 0)]" 4
        "[(0, 1, 0), (1, 1, 0), (2, 1, 0), (3, 1, 0)]"]
  by simp blast

text \<open>The index buffer for two borders of four points, computed.\<close>

lemma generate_mesh_four_points:
  "generate_mesh_from_borders [i0, i1, i2, i3] [o0, o1, o2, o3] =
     Inr \<lparr>vertices = [o0, o1, o2, o3, i3, i2, i1, i0],
          indices = [1, 0, 7, 6, 1, 7, 2, 1, 6, 5, 2, 6, 3, 2, 5, 4, 3, 5]\<rparr>"
  by (simp add: generate_mesh_from_borders_def mesh_loop.simps size_sub_def size_add_def)

section \<open>Properties of golden_section_search\<close>

lemma sqrt5_bounds: "2 < sqrt 5" "sqrt 5 < 3"
proof -
  have "sqrt 4 < sqrt 5" by (intro real_sqrt_less_mono) simp
  then show "2 < sqrt 5" by simp
  have "sqrt 5 < sqrt 9" by (intro real_sqrt_less_mono) simp
  moreover have "sqrt 9 = 3" using real_sqrt_abs [of 3] by simp
  ultimately show "sqrt 5 < 3" by simp
qed

lemma sqrt5_sq: "sqrt 5 * sqrt 5 = 5"
  by simp

lemma invphi_pos: "0 < invphi" and invphi_lt1: "invphi < 1"
  using sqrt5_bounds by (simp_all add: invphi_def)

lemma invphi2_eq: "invphi2 = 1 - invphi"
  by (simp add: invphi_def invphi2_def field_simps)

lemma invphi_sq: "invphi * invphi = 1 - invphi"
proof -
  have "invphi * invphi = (sqrt 5 * sqrt 5 - 2 * sqrt 5 + 1) / 4"
    by (simp add: invphi_def algebra_simps)
  also have "\<dots> = 1 - invphi" by (simp add: invphi_def field_simps)
  finally show ?thesis .
qed

lemma probes_ordered:
  assumes "0 < h"
  shows "a < a + invphi2 * h" "a + invphi2 * h < a + invphi * h" "a + invphi * h < a + h"
proof -
  have i2: "0 < invphi2" "invphi2 < invphi"
    using sqrt5_bounds by (simp_all add: invphi_def invphi2_def)
  show "a < a + invphi2 * h" using assms i2 by simp
  show "a + invphi2 * h < a + invphi * h" using assms i2 by simp
  show "a + invphi * h < a + h" using assms invphi_lt1 by simp
qed

lemma gss_minimum_side:
  assumes u: "unimodal_on f a0 b0 xm" and inv: "gss_inv f a0 b0 xm st"
  shows "gs_yc st < gs_yd st \<Longrightarrow> xm \<le> gs_d st"
    and "\<not> gs_yc st < gs_yd st \<Longrightarrow> gs_c st \<le> xm"
proof -
  from inv have h: "0 < gs_h st" and b: "gs_b st = gs_a st + gs_h st"
    and c: "gs_c st = gs_a st + invphi2 * gs_h st" and d: "gs_d st = gs_a st + invphi * gs_h st"
    and yc: "gs_yc st = f (gs_c st)" and yd: "gs_yd st = f (gs_d st)"
    and a0: "a0 \<le> gs_a st" and b0: "gs_b st \<le> b0"
    by (auto simp: gss_inv_def)
  from probes_ordered [OF h, of "gs_a st"] c d b
  have ord: "gs_a st < gs_c st" "gs_c st < gs_d st" "gs_d st < gs_b st" by simp_all
  {
    assume lt: "gs_yc st < gs_yd st"
    show "xm \<le> gs_d st"
    proof (rule ccontr)
      assume "\<not> xm \<le> gs_d st"
      then have "a0 \<le> gs_c st \<and> gs_c st < gs_d st \<and> gs_d st \<le> xm"
        using ord a0 by simp
      with u have "f (gs_d st) < f (gs_c st)" unfolding unimodal_on_def by blast
      with lt yc yd show False by simp
    qed
  }
  {
    assume nlt: "\<not> gs_yc st < gs_yd st"
    show "gs_c st \<le> xm"
    proof (rule ccontr)
      assume "\<not> gs_c st \<le> xm"
      then have "xm \<le> gs_c st \<and> gs_c st < gs_d st \<and> gs_d st \<le> b0"
        using ord b0 by simp
      with u have "f (gs_c st) < f (gs_d st)" unfolding unimodal_on_def by blast
      with nlt yc yd show False by simp
    qed
  }
qed

lemma gss_step_inv:
  assumes u: "unimodal_on f a0 b0 xm" and inv: "gss_inv f a0 b0 xm st"
  shows "gss_inv f a0 b0 xm (gss_step f st)"
proof -
  from inv have h: "0 < gs_h st" and b: "gs_b st = gs_a st + gs_h st"
    and c: "gs_c st = gs_a st + invphi2 * gs_h st" and d: "gs_d st = gs_a st + invphi * gs_h st"
    and a0: "a0 \<le> gs_a st" and b0: "gs_b st \<le> b0" and am: "gs_a st \<le> xm" and mb: "xm \<le> gs_b st"
    by (auto simp: gss_inv_def)
  from probes_ordered [OF h, of "gs_a st"] c d b
  have ord: "gs_a st < gs_c st" "gs_c st < gs_d st" "gs_d st < gs_b st" by simp_all
  have hp: "0 < invphi * gs_h st" using h invphi_pos by simp
  show ?thesis
  proof (cases "gs_yc st < gs_yd st")
    case True
    from gss_minimum_side(1) [OF u inv True] have md: "xm \<le> gs_d st" .
    have e: "invphi2 * gs_h st = invphi * (invphi * gs_h st)"
      using invphi_sq by (simp add: invphi2_eq flip: mult.assoc)
    show ?thesis
      using True hp c d a0 b0 am md ord e inv
      by (simp add: gss_inv_def gss_step_def Let_def)
  next
    case False
    from gss_minimum_side(2) [OF u inv False] have cm: "gs_c st \<le> xm" .
    have e1: "gs_b st - gs_c st = invphi * gs_h st"
      by (simp add: b c invphi2_eq algebra_simps)
    have e2: "gs_d st = gs_c st + invphi2 * (invphi * gs_h st)"
    proof -
      have "invphi2 * (invphi * gs_h st) = (invphi - invphi * invphi) * gs_h st"
        by (simp add: invphi2_eq algebra_simps)
      also have "\<dots> = (invphi - invphi2) * gs_h st"
        by (simp add: invphi_sq invphi2_eq)
      finally show ?thesis by (simp add: c d algebra_simps)
    qed
    show ?thesis
      using False hp e1 e2 a0 b0 cm mb ord inv
      by (simp add: gss_inv_def gss_step_def Let_def)
  qed
qed

lemma gss_step_h: "gs_h (gss_step f st) = invphi * gs_h st"
  by (simp add: gss_step_def Let_def)

lemma gss_step_evals: "length (gs_evals (gss_step f st)) = Suc (length (gs_evals st))"
  by (simp add: gss_step_def Let_def)

lemma gss_loop_inv:
  "unimodal_on f a0 b0 xm \<Longrightarrow> gss_inv f a0 b0 xm st \<Longrightarrow> gss_inv f a0 b0 xm (gss_loop f k st)"
  by (induction k arbitrary: st) (simp_all add: gss_step_inv)

lemma gss_loop_h: "gs_h (gss_loop f k st) = invphi ^ k * gs_h st"
  by (induction k arbitrary: st) (simp_all add: gss_step_h)

lemma gss_loop_evals: "length (gs_evals (gss_loop f k st)) = k + length (gs_evals st)"
  by (induction k arbitrary: st) (simp_all add: gss_step_evals)

lemma gss_init_inv:
  "unimodal_on f a b xm \<Longrightarrow> a < b \<Longrightarrow> gss_inv f a b xm (gss_init f a b)"
  by (simp add: gss_init_def gss_inv_def Let_def unimodal_on_def)


lemma gss_steps_enough:
  assumes "0 < tol" and "tol < h"
  shows "1 \<le> gss_steps tol h" and "invphi ^ nat (gss_steps tol h) * h \<le> tol"
proof -
  from assms have h: "0 < h" by simp
  have r: "0 < tol / h" "tol / h < 1" using assms h by simp_all
  have lr: "ln (tol / h) < 0" using r by simp
  have li: "ln invphi < 0" using invphi_pos invphi_lt1 by simp
  have q: "0 < ln (tol / h) / ln invphi" using lr li by (simp add: divide_neg_neg)
  then have "0 < gss_steps tol h" unfolding gss_steps_def by (simp add: ceiling_less_iff)
  then show one: "1 \<le> gss_steps tol h" by simp
  let ?n = "nat (gss_steps tol h)"
  have "ln (tol / h) / ln invphi \<le> real_of_int (gss_steps tol h)"
    unfolding gss_steps_def by (rule le_of_int_ceiling)
  also have "\<dots> = real ?n" using one by simp
  finally have "ln (tol / h) / ln invphi \<le> real ?n" .
  then have "real ?n * ln invphi \<le> ln (tol / h)"
    using li by (simp add: neg_divide_le_eq)
  then have "ln (invphi ^ ?n) \<le> ln (tol / h)"
    using invphi_pos by (simp add: ln_realpow)
  then have "invphi ^ ?n \<le> tol / h"
    using invphi_pos r by (simp add: ln_le_cancel_iff)
  then show "invphi ^ ?n * h \<le> tol"
    using h by (simp add: pos_le_divide_eq)
qed

lemma final_bracket_width:
  assumes "gss_inv f a0 b0 xm st"
  shows "snd (final_bracket st) - fst (final_bracket st) = invphi * gs_h st"
  using assms by (auto simp: final_bracket_def gss_inv_def invphi2_eq algebra_simps)

lemma final_bracket_contains:
  assumes "unimodal_on f a0 b0 xm" and "gss_inv f a0 b0 xm st"
  shows "fst (final_bracket st) \<le> xm" and "xm \<le> snd (final_bracket st)"
  using gss_minimum_side [OF assms] assms(2)
  by (auto simp: final_bracket_def gss_inv_def)

lemma midpoint_near:
  fixes lo hi xm tol :: real
  shows "lo \<le> xm \<Longrightarrow> xm \<le> hi \<Longrightarrow> hi - lo \<le> tol \<Longrightarrow> 0 < tol \<Longrightarrow> \<bar>0.5 * (lo + hi) - xm\<bar> \<le> tol"
  by (simp add: abs_le_iff field_simps)

lemma golden_section_search_run:
  assumes "tol < b - a" and "0 < tol / (b - a)"
  shows "golden_section_search f a b tol =
    (let st = gss_loop f (nat (gss_steps tol (b - a) - 1)) (gss_init f a b)
     in Inr (0.5 * (fst (final_bracket st) + snd (final_bracket st)), gs_evals st))"
  using assms by (simp add: golden_section_search_def Let_def final_bracket_def)

text \<open>
  Claim C6. Whenever \<open>b - a \<le> tol\<close>, \<open>golden_section_search\<close> returns the
  midpoint \<open>0.5 * (a + b)\<close> at once; the list of arguments at which \<open>f\<close> was
  evaluated is empty.
\<close>

theorem golden_section_search_degenerate:
  "b - a \<le> tol \<Longrightarrow> golden_section_search f a b tol = Inr (0.5 * (a + b), [])"
  by (simp add: golden_section_search_def)

theorem golden_section_search_degenerate_witness:
  "(2::real) - 1 \<le> 3 \<and> golden_section_search (\<lambda>x. (x - 3)\<^sup>2) 1 2 3 = Inr (0.5 * (1 + 2), [])"
  using golden_section_search_degenerate [of 2 1 3 "\<lambda>x. (x - 3)\<^sup>2"] by simp

text \<open>
  The schedule in exact arithmetic. For \<open>f\<close> unimodal on \<open>[a, b]\<close> with
  minimiser \<open>xm\<close> and \<open>0 < tol < b - a\<close>, the loop runs \<open>n - 1\<close> times for
  \<open>n = \<lceil>ln (tol / (b - a)) / ln invphi\<rceil>\<close>, \<open>f\<close> is evaluated \<open>n + 1\<close> times, the
  final bracket contains \<open>xm\<close> and is at most \<open>tol\<close> wide, and the value
  returned is its midpoint. This is a statement about the algorithm over the
  reals; it says nothing about the rounding of \<open>double\<close>, where \<open>tol / h\<close> can
  underflow to zero and \<open>tol\<close> can be below the spacing of the numbers.
\<close>

lemma golden_section_search_exact_arithmetic:
  assumes u: "unimodal_on f a b xm" and tol: "0 < tol" and h: "tol < b - a"
  shows "\<exists>x evals st.
           golden_section_search f a b tol = Inr (x, evals) \<and>
           st = gss_loop f (nat (\<lceil>ln (tol / (b - a)) / ln ((sqrt 5 - 1) / 2)\<rceil> - 1)) (gss_init f a b) \<and>
           evals = gs_evals st \<and>
           int (length evals) = \<lceil>ln (tol / (b - a)) / ln ((sqrt 5 - 1) / 2)\<rceil> + 1 \<and>
           fst (final_bracket st) \<le> xm \<and> xm \<le> snd (final_bracket st) \<and>
           snd (final_bracket st) - fst (final_bracket st) \<le> tol \<and>
           x = 0.5 * (fst (final_bracket st) + snd (final_bracket st)) \<and>
           \<bar>x - xm\<bar> \<le> tol"
proof -
  let ?n = "gss_steps tol (b - a)"
  let ?st = "gss_loop f (nat (?n - 1)) (gss_init f a b)"
  let ?lo = "fst (final_bracket ?st)" and ?hi = "snd (final_bracket ?st)"
  have n_eq: "?n = \<lceil>ln (tol / (b - a)) / ln ((sqrt 5 - 1) / 2)\<rceil>"
    by (simp add: gss_steps_def invphi_def)
  from tol h have ab: "a < b" and r: "0 < tol / (b - a)" by simp_all
  have n1: "1 \<le> ?n" and small: "invphi ^ nat ?n * (b - a) \<le> tol"
    using gss_steps_enough [OF tol h] by simp_all
  have inv: "gss_inv f a b xm ?st"
    using u ab by (intro gss_loop_inv gss_init_inv)
  have run: "golden_section_search f a b tol = Inr (0.5 * (?lo + ?hi), gs_evals ?st)"
    using golden_section_search_run [OF h r, of f] by (simp add: Let_def)
  have len: "int (length (gs_evals ?st)) = ?n + 1"
    using n1 by (simp add: gss_loop_evals gss_init_def Let_def)
  have lo: "?lo \<le> xm" and hi: "xm \<le> ?hi"
    using final_bracket_contains [OF u inv] by simp_all
  have "?hi - ?lo = invphi * (invphi ^ nat (?n - 1) * (b - a))"
    using final_bracket_width [OF inv] by (simp add: gss_loop_h gss_init_def Let_def)
  also have "\<dots> = invphi ^ Suc (nat (?n - 1)) * (b - a)" by simp
  also have "Suc (nat (?n - 1)) = nat ?n" using n1 by simp
  finally have width: "?hi - ?lo \<le> tol" using small by simp
  have near: "\<bar>0.5 * (?lo + ?hi) - xm\<bar> \<le> tol"
    using lo hi width tol by (rule midpoint_near)
  show ?thesis
    using run len lo hi width near unfolding n_eq by blast
qed

lemma quadratic_unimodal: "unimodal_on (\<lambda>x. (x - 3)\<^sup>2) 0 10 3"
proof -
  have dec: "(y - 3)\<^sup>2 < (x - 3)\<^sup>2" if "x < y" "y \<le> 3" for x y :: real
  proof -
    have "(3 - y) ^ 2 < (3 - x) ^ 2" using that by (intro power_strict_mono) simp_all
    then show ?thesis by (simp add: power2_commute)
  qed
  have inc: "(x - 3)\<^sup>2 < (y - 3)\<^sup>2" if "3 \<le> x" "x < y" for x y :: real
    using that by (intro power_strict_mono) simp_all
  show ?thesis using dec inc by (simp add: unimodal_on_def)
qed

lemma golden_section_search_exact_arithmetic_quadratic:
  "unimodal_on (\<lambda>x. (x - 3)\<^sup>2) 0 10 3 \<and> (0::real) < 1 / 10 ^ 6 \<and> (1::real) / 10 ^ 6 < 10 - 0 \<and>
   (\<exists>x evals. golden_section_search (\<lambda>x. (x - 3)\<^sup>2) 0 10 (1 / 10 ^ 6) = Inr (x, evals) \<and>
      \<bar>x - 3\<bar> \<le> 1 / 10 ^ 6)"
proof -
  have t: "(0::real) < 1 / 10 ^ 6" "(1::real) / 10 ^ 6 < 10 - 0" by simp_all
  from golden_section_search_exact_arithmetic [OF quadratic_unimodal t]
  show ?thesis using quadratic_unimodal t by blast
qed

text \<open>
  With \<open>tol = 0\<close> on \<open>[0, 1]\<close> the quotient \<open>tol / h\<close> is zero, its logarithm is
  not finite, and the conversion of the step count to \<open>int\<close> is undefined.
\<close>

lemma half_unimodal: "unimodal_on (\<lambda>x. \<bar>x - 1 / 2\<bar>) 0 1 (1 / 2)"
  by (simp add: unimodal_on_def)

lemma golden_section_search_zero_tol:
  "unimodal_on (\<lambda>x. \<bar>x - 1 / 2\<bar>) 0 1 (1 / 2) \<and> (0::real) < 1 - 0 \<and>
   golden_section_search (\<lambda>x. \<bar>x - 1 / 2\<bar>) 0 1 0 = Inl Undefined"
  using half_unimodal by (simp add: golden_section_search_def)

section \<open>Properties of rdp\<close>

subsection \<open>The distance\<close>

lemma collect_checked_div:
  "mag \<noteq> 0 \<Longrightarrow> collect (map (\<lambda>x. checked_div x mag) delta) = Inr (map (\<lambda>x. x / mag) delta)"
  by (induction delta) (simp_all add: checked_div_def)

lemma normalise_Inr:
  "normalise delta mag = Inr (if mag > 0 then map (\<lambda>x. x / mag) delta else delta)"
  by (simp add: normalise_def collect_checked_div)

lemma point_line_distance_pdist:
  "point_line_distance p_start p_last p = Inr (pdist p_start p_last p)"
  by (simp add: point_line_distance_def pdist_def normalise_Inr Let_def)

lemma pdist_nonneg: "0 \<le> pdist p_start p_last p"
  unfolding pdist_def Let_def
proof (rule real_sqrt_ge_zero)
  have "0 \<le> s \<Longrightarrow> 0 \<le> foldl (\<lambda>s x. s + x\<^sup>2) s xs" for s :: real and xs
    by (induction xs arbitrary: s) simp_all
  then show "0 \<le> foldl (\<lambda>s x. s + x\<^sup>2) 0 xs" for xs :: "real list" by simp
qed

lemma vector_at_Inr: "i < length xs \<Longrightarrow> vector_at xs i = Inr (xs ! i)"
  by (simp add: vector_at_def)

lemma rdp_loop_scan:
  assumes "0 < step" and "last_idx < length points" and "length points < 2 ^ 64"
  shows "idx + m * step = last_idx \<Longrightarrow> start_idx \<le> idx \<Longrightarrow>
    rdp_loop points start_idx step last_idx idx acc =
      Some (Inr (far_scan (points ! start_idx) (points ! last_idx)
                   (map (\<lambda>j. points ! (idx + j * step)) [0..<m]) idx step acc))"
proof (induction m arbitrary: idx acc)
  case 0
  then show ?case by (subst rdp_loop.simps) simp
next
  case (Suc m)
  from Suc.prems assms(1) have lt: "idx < last_idx" by simp
  from Suc.prems assms(2,3) have add: "size_add idx step = idx + step"
    by (intro size_add_small) simp
  have st: "start_idx < length points" and ix: "idx < length points"
    using assms(2) Suc.prems(2) lt by auto
  have ih: "rdp_loop points start_idx step last_idx (idx + step) acc' =
      Some (Inr (far_scan (points ! start_idx) (points ! last_idx)
                   (map (\<lambda>j. points ! (idx + step + j * step)) [0..<m]) (idx + step) step acc'))"
    for acc'
    using Suc.prems by (intro Suc.IH) simp_all
  have m: "map (\<lambda>j. points ! (idx + j * step)) [0..<Suc m] =
           points ! idx # map (\<lambda>j. points ! (idx + step + j * step)) [0..<m]"
    by (simp add: upt_conv_Cons map_Suc_upt [symmetric] add.assoc del: upt_Suc)
  show ?case
    apply (subst rdp_loop.simps)
    apply (simp only: m far_scan.simps)
    apply (simp add: lt vector_at_Inr assms(2) st ix point_line_distance_pdist add ih)
    done
qed


subsection \<open>The scan for the farthest point\<close>

lemma far_scan_fst_mono: "fst acc \<le> fst (far_scan a b ps idx step acc)"
proof (induction ps arbitrary: idx acc)
  case Nil
  show ?case by simp
next
  case (Cons p ps)
  have "fst acc \<le> fst (if pdist a b p > fst acc then (pdist a b p, idx) else acc)" by simp
  also have "\<dots> \<le> fst (far_scan a b ps (idx + step) step
                       (if pdist a b p > fst acc then (pdist a b p, idx) else acc))"
    by (rule Cons.IH)
  finally show ?case by simp
qed

lemma far_scan_upper: "p \<in> set ps \<Longrightarrow> pdist a b p \<le> fst (far_scan a b ps idx step acc)"
proof (induction ps arbitrary: idx acc)
  case Nil
  then show ?case by simp
next
  case (Cons x ps)
  let ?acc = "if pdist a b x > fst acc then (pdist a b x, idx) else acc"
  show ?case
  proof (cases "p = x")
    case True
    have "pdist a b p \<le> fst ?acc" using True by simp
    also have "\<dots> \<le> fst (far_scan a b ps (idx + step) step ?acc)" by (rule far_scan_fst_mono)
    finally show ?thesis by simp
  next
    case False
    with Cons.prems have "p \<in> set ps" by simp
    then show ?thesis using Cons.IH by simp
  qed
qed

lemma far_scan_unchanged:
  "\<forall>p \<in> set ps. pdist a b p \<le> fst acc \<Longrightarrow> far_scan a b ps idx step acc = acc"
  by (induction ps arbitrary: idx) simp_all

lemma far_scan_below:
  "\<forall>p \<in> set ps. pdist a b p < m \<Longrightarrow> fst acc < m \<Longrightarrow> fst (far_scan a b ps idx step acc) < m"
  by (induction ps arbitrary: idx acc) simp_all

lemma far_scan_append:
  "far_scan a b (us @ vs) idx step acc =
     far_scan a b vs (idx + length us * step) step (far_scan a b us idx step acc)"
  by (induction us arbitrary: idx acc) (simp_all add: add.assoc)

lemma far_scan_first_max:
  assumes "\<forall>u \<in> set us. pdist a b u < m" and "fst acc < m" and "pdist a b p = m"
    and "\<forall>v \<in> set vs. pdist a b v \<le> m"
  shows "far_scan a b (us @ p # vs) idx step acc = (m, idx + length us * step)"
proof -
  have "fst (far_scan a b us idx step acc) < m"
    using assms(1,2) by (rule far_scan_below)
  then show ?thesis
    using assms(3,4) by (simp add: far_scan_append far_scan_unchanged)
qed

lemma far_scan_fst_eq:
  "fst (far_scan a b ps idx step acc) = fst acc \<Longrightarrow> far_scan a b ps idx step acc = acc"
proof (induction ps arbitrary: idx acc)
  case Nil
  show ?case by simp
next
  case (Cons p ps)
  let ?acc = "if pdist a b p > fst acc then (pdist a b p, idx) else acc"
  have le: "fst ?acc \<le> fst (far_scan a b ps (idx + step) step ?acc)"
    by (rule far_scan_fst_mono)
  show ?case
  proof (cases "pdist a b p > fst acc")
    case True
    with le Cons.prems show ?thesis by simp
  next
    case False
    with Cons.prems Cons.IH [of "idx + step" acc] show ?thesis by simp
  qed
qed

lemma far_scan_split:
  "far_scan a b ps idx step acc = (m, i) \<Longrightarrow> fst acc < m \<Longrightarrow>
   \<exists>us p vs. ps = us @ p # vs \<and> (\<forall>u \<in> set us. pdist a b u < m) \<and> pdist a b p = m \<and>
     (\<forall>v \<in> set vs. pdist a b v \<le> m) \<and> i = idx + length us * step"
proof (induction ps arbitrary: idx acc)
  case Nil
  then show ?case by simp
next
  case (Cons x ps)
  let ?acc = "if pdist a b x > fst acc then (pdist a b x, idx) else acc"
  from Cons.prems(1) have run: "far_scan a b ps (idx + step) step ?acc = (m, i)" by simp
  have le: "fst ?acc \<le> m" using far_scan_fst_mono [of ?acc a b ps "idx + step" step] run by simp
  show ?case
  proof (cases "fst ?acc = m")
    case True
    with run have "far_scan a b ps (idx + step) step ?acc = ?acc"
      by (intro far_scan_fst_eq) simp
    with run have acc: "?acc = (m, i)" by simp
    with Cons.prems(2) have x: "pdist a b x = m" and i: "i = idx"
      by (auto split: if_splits)
    have "\<forall>v \<in> set ps. pdist a b v \<le> m"
      using far_scan_upper [of _ ps a b "idx + step" step ?acc] run by simp
    with x i have "x # ps = [] @ x # ps \<and> (\<forall>u \<in> set []. pdist a b u < m) \<and> pdist a b x = m \<and>
        (\<forall>v \<in> set ps. pdist a b v \<le> m) \<and> i = idx + length ([] :: vec list) * step"
      by simp
    then show ?thesis by blast
  next
    case False
    with le have lt: "fst ?acc < m" by simp
    from Cons.IH [OF run lt] obtain us p vs where
      ps: "ps = us @ p # vs" and us: "\<forall>u \<in> set us. pdist a b u < m" and p: "pdist a b p = m"
      and vs: "\<forall>v \<in> set vs. pdist a b v \<le> m" and i: "i = idx + step + length us * step"
      by blast
    have x: "pdist a b x < m" using lt Cons.prems(2) by (simp split: if_splits)
    have "x # ps = (x # us) @ p # vs \<and> (\<forall>u \<in> set (x # us). pdist a b u < m) \<and> pdist a b p = m \<and>
        (\<forall>v \<in> set vs. pdist a b v \<le> m) \<and> i = idx + length (x # us) * step"
      using ps us p vs i x by simp
    then show ?thesis by blast
  qed
qed

lemma far_scan_fst_indep:
  "fst acc = fst acc' \<Longrightarrow>
   fst (far_scan a b ps idx step acc) = fst (far_scan a b ps idx' step' acc')"
  by (induction ps arbitrary: idx idx' acc acc') simp_all


lemma far_scan_bounded:
  "\<forall>p \<in> set ps. pdist a b p \<le> e \<Longrightarrow> fst acc \<le> e \<Longrightarrow> fst (far_scan a b ps idx step acc) \<le> e"
  by (induction ps arbitrary: idx acc) simp_all

subsection \<open>The simplification on lists\<close>

lemma rdp_list_short: "length xs < 2 \<Longrightarrow> rdp_list eps xs = []"
  by (subst rdp_list.simps) simp

lemma rdp_list_ends:
  "rdp_list eps (a # ps @ [b]) =
     (let r = far_scan a b ps 1 1 (0, 0) in
      if fst r > eps \<and> 0 < snd r \<and> snd r \<le> length ps
      then butlast (rdp_list eps (take (Suc (snd r)) (a # ps @ [b]))) @
           rdp_list eps (drop (snd r) (a # ps @ [b]))
      else [a, b])"
  by (subst rdp_list.simps) (simp add: Let_def less_Suc_eq_le)

lemma rdp_list_collapse:
  "fst (far_scan a b ps 1 1 (0, 0)) \<le> eps \<Longrightarrow> rdp_list eps (a # ps @ [b]) = [a, b]"
  by (subst rdp_list_ends) (simp add: Let_def)

lemma rdp_list_split:
  assumes "\<forall>u \<in> set us. pdist a b u < m" and "0 < m" and "pdist a b p = m"
    and "\<forall>v \<in> set vs. pdist a b v \<le> m" and "eps < m"
  shows "rdp_list eps (a # us @ p # vs @ [b]) =
           butlast (rdp_list eps (a # us @ [p])) @ rdp_list eps (p # vs @ [b])"
proof -
  have scan: "far_scan a b (us @ p # vs) 1 1 (0, 0) = (m, Suc (length us))"
    using far_scan_first_max [OF assms(1) _ assms(3,4), of "(0, 0)" 1 1] assms(2) by simp
  have "rdp_list eps (a # (us @ p # vs) @ [b]) =
          butlast (rdp_list eps (a # us @ [p])) @ rdp_list eps (p # vs @ [b])"
    unfolding rdp_list_ends [of eps a "us @ p # vs" b] scan Let_def
    using assms(5) by simp
  then show ?thesis by simp
qed

lemma rdp_list_shape:
  "0 \<le> eps \<Longrightarrow>
   \<exists>M. rdp_list eps (a # ps @ [b]) = a # M @ [b] \<and> set M \<subseteq> set ps \<and> length M \<le> length ps"
proof (induction "length ps" arbitrary: a ps b rule: less_induct)
  case less
  obtain m k where r: "far_scan a b ps 1 1 (0, 0) = (m, k)" by (cases "far_scan a b ps 1 1 (0, 0)")
  show ?case
  proof (cases "eps < m")
    case False
    with r have "rdp_list eps (a # ps @ [b]) = a # [] @ [b]"
      by (simp add: rdp_list_collapse)
    then show ?thesis by (intro exI [of _ "[]"]) simp
  next
    case True
    with less.prems have m0: "0 < m" by simp
    from far_scan_split [OF r] m0 obtain us p vs where
      ps: "ps = us @ p # vs" and us: "\<forall>u \<in> set us. pdist a b u < m" and p: "pdist a b p = m"
      and vs: "\<forall>v \<in> set vs. pdist a b v \<le> m"
      by auto
    have "\<exists>M. rdp_list eps (a # us @ [p]) = a # M @ [p] \<and> set M \<subseteq> set us \<and> length M \<le> length us"
      by (rule less.hyps) (simp_all add: ps less.prems)
    then obtain M1 where
      M1: "rdp_list eps (a # us @ [p]) = a # M1 @ [p]" "set M1 \<subseteq> set us" "length M1 \<le> length us"
      by auto
    have "\<exists>M. rdp_list eps (p # vs @ [b]) = p # M @ [b] \<and> set M \<subseteq> set vs \<and> length M \<le> length vs"
      by (rule less.hyps) (simp_all add: ps less.prems)
    then obtain M2 where
      M2: "rdp_list eps (p # vs @ [b]) = p # M2 @ [b]" "set M2 \<subseteq> set vs" "length M2 \<le> length vs"
      by auto
    have "rdp_list eps (a # ps @ [b]) = a # (M1 @ p # M2) @ [b]"
      using rdp_list_split [OF us m0 p vs True] M1(1) M2(1)
      by (simp add: ps butlast_append)
    moreover have "set (M1 @ p # M2) \<subseteq> set ps" using M1(2) M2(2) ps by auto
    moreover have "length (M1 @ p # M2) \<le> length ps" using M1(3) M2(3) ps by simp
    ultimately show ?thesis by blast
  qed
qed

lemma two_ends: "2 \<le> length xs \<Longrightarrow> \<exists>a ps b. xs = a # ps @ [b]"
proof (cases xs)
  case Nil
  assume "2 \<le> length xs"
  with Nil show ?thesis by simp
next
  case (Cons a ys)
  assume "2 \<le> length xs"
  with Cons have "ys \<noteq> []" by auto
  then obtain ps b where "ys = ps @ [b]" by (cases ys rule: rev_cases) auto
  with Cons show ?thesis by blast
qed

lemma rdp_list_idem:
  "0 \<le> eps \<Longrightarrow> rdp_list eps (rdp_list eps xs) = rdp_list eps xs"
proof (induction "length xs" arbitrary: xs rule: less_induct)
  case less
  show ?case
  proof (cases "length xs < 2")
    case True
    then show ?thesis by (simp add: rdp_list_short)
  next
    case False
    then obtain a ps b where xs: "xs = a # ps @ [b]" using two_ends [of xs] by auto
    obtain m k where r: "far_scan a b ps 1 1 (0, 0) = (m, k)" by (cases "far_scan a b ps 1 1 (0, 0)")
    show ?thesis
    proof (cases "eps < m")
      case False
      with r have "rdp_list eps xs = a # [] @ [b]" by (simp add: xs rdp_list_collapse)
      moreover have "rdp_list eps (a # [] @ [b]) = [a, b]"
        using less.prems by (intro rdp_list_collapse) simp
      ultimately show ?thesis by simp
    next
      case True
      with less.prems have m0: "0 < m" by simp
      from far_scan_split [OF r] m0 obtain us p vs where
        ps: "ps = us @ p # vs" and us: "\<forall>u \<in> set us. pdist a b u < m" and p: "pdist a b p = m"
        and vs: "\<forall>v \<in> set vs. pdist a b v \<le> m"
        by auto
      from rdp_list_shape [OF less.prems, of a us p] obtain M1 where
        M1: "rdp_list eps (a # us @ [p]) = a # M1 @ [p]" "set M1 \<subseteq> set us" by blast
      from rdp_list_shape [OF less.prems, of p vs b] obtain M2 where
        M2: "rdp_list eps (p # vs @ [b]) = p # M2 @ [b]" "set M2 \<subseteq> set vs" by blast
      have res: "rdp_list eps xs = a # M1 @ p # M2 @ [b]"
        using rdp_list_split [OF us m0 p vs True] M1(1) M2(1)
        by (simp add: xs ps butlast_append)
      have us': "\<forall>u \<in> set M1. pdist a b u < m" using us M1(2) by blast
      have vs': "\<forall>v \<in> set M2. pdist a b v \<le> m" using vs M2(2) by blast
      have "rdp_list eps (rdp_list eps (a # us @ [p])) = rdp_list eps (a # us @ [p])"
        by (rule less.hyps) (simp_all add: xs ps less.prems)
      then have i1: "rdp_list eps (a # M1 @ [p]) = a # M1 @ [p]" by (simp add: M1(1))
      have "rdp_list eps (rdp_list eps (p # vs @ [b])) = rdp_list eps (p # vs @ [b])"
        by (rule less.hyps) (simp_all add: xs ps less.prems)
      then have i2: "rdp_list eps (p # M2 @ [b]) = p # M2 @ [b]" by (simp add: M2(1))
      have "rdp_list eps (a # M1 @ p # M2 @ [b]) = a # M1 @ p # M2 @ [b]"
        using rdp_list_split [OF us' m0 p vs' True] i1 i2
        by (simp add: butlast_append)
      with res show ?thesis by simp
    qed
  qed
qed


subsection \<open>rdp computes the simplification of the points of its range\<close>

lemma int_of_size_small: "n < 2 ^ 31 \<Longrightarrow> int_of_size n = int n"
proof -
  assume n: "n < 2 ^ 31"
  have "(2::nat) ^ 31 < 2 ^ 32" by simp
  with n have "n < 2 ^ 32" by (rule less_trans)
  then have m: "n mod 2 ^ 32 = n" by (rule mod_less)
  from n have "int n < int (2 ^ 31)" by (simp only: of_nat_less_iff)
  then have "int n < 2 ^ 31" by simp
  then show ?thesis unfolding int_of_size_def Let_def m by simp
qed

lemma end_idx_of_int: "0 < n \<Longrightarrow> end_idx_of points (int n) = n"
  by (simp add: end_idx_of_def)

lemma size_mul_small: "a * b < 2 ^ 64 \<Longrightarrow> size_mul a b = a * b"
  by (simp add: size_mul_def)

lemma last_idx_of_range:
  assumes "0 < step" and "start + q * step < E" and "E \<le> start + q * step + step" and "E < 2 ^ 64"
  shows "last_idx_of start step E = start + q * step"
proof -
  have s1: "size_sub E start = E - start" using assms by (intro size_sub_le) simp_all
  have s2: "size_sub (E - start) 1 = E - start - 1" using assms by (intro size_sub_le) simp_all
  have d: "(E - start - 1) div step = q"
    using assms by (intro div_nat_eqI) (simp_all add: mult.commute)
  have m: "size_mul q step = q * step" using assms by (intro size_mul_small) simp
  have a: "size_add (q * step) start = q * step + start" using assms by (intro size_add_small) simp
  show ?thesis unfolding last_idx_of_def s1 s2 d m a by simp
qed

lemma range_pts_ends:
  "1 \<le> q \<Longrightarrow> range_pts points start step q =
     points ! start # map (\<lambda>j. points ! (start + step + j * step)) [0..<q - 1] @
       [points ! (start + q * step)]"
proof -
  assume q: "1 \<le> q"
  then obtain q' where q': "q = Suc q'" by (cases q) simp_all
  have "map (\<lambda>k. points ! (start + k * step)) [0..<Suc q'] =
        points ! start # map (\<lambda>j. points ! (start + step + j * step)) [0..<q']"
    by (simp add: upt_conv_Cons map_Suc_upt [symmetric] add.assoc del: upt_Suc)
  then show ?thesis by (simp add: range_pts_def q')
qed

lemma range_pts_take:
  "k \<le> q \<Longrightarrow> range_pts points start step k = take (Suc k) (range_pts points start step q)"
  by (simp add: range_pts_def take_map del: upt_Suc)

lemma range_pts_drop:
  "k \<le> q \<Longrightarrow> range_pts points (start + k * step) step (q - k) = drop k (range_pts points start step q)"
proof -
  assume k: "k \<le> q"
  have "drop k (map (\<lambda>j. points ! (start + j * step)) [0..<Suc q]) =
        map (\<lambda>j. points ! (start + j * step)) [k..<Suc q]"
    by (simp add: drop_map del: upt_Suc)
  also have "\<dots> = map (\<lambda>j. points ! (start + j * step)) (map (\<lambda>i. i + k) [0..<Suc q - k])"
    using k by (simp add: map_add_upt del: upt_Suc)
  also have "\<dots> = map (\<lambda>i. points ! (start + k * step + i * step)) [0..<Suc (q - k)]"
    using k by (simp add: o_def algebra_simps Suc_diff_le del: upt_Suc)
  finally show ?thesis by (simp add: range_pts_def del: upt_Suc)
qed


lemma rdp_refines:
  assumes step: "0 < step" and eps: "0 \<le> eps" and len: "length points < 2 ^ 31"
  shows "1 \<le> q \<Longrightarrow> start + q * step < end_idx_of points e \<Longrightarrow>
    end_idx_of points e \<le> start + q * step + step \<Longrightarrow> end_idx_of points e \<le> length points \<Longrightarrow>
    rdp points eps out start step e = Some (Inr (rdp_list eps (range_pts points start step q)))"
proof (induction q arbitrary: start e out rule: less_induct)
  case (less q)
  let ?E = "end_idx_of points e"
  let ?last = "start + q * step"
  let ?a = "points ! start" and ?b = "points ! ?last"
  let ?ps = "map (\<lambda>j. points ! (start + step + j * step)) [0..<q - 1]"
  have "(2::nat) ^ 31 < 2 ^ 64" by simp
  with len have len64: "length points < 2 ^ 64" by (rule less_trans)
  have E31: "?E < 2 ^ 31" using less.prems(4) len by simp
  have E64: "?E < 2 ^ 64" using less.prems(4) len64 by simp
  have lastlen: "?last < length points" using less.prems(2,4) by simp
  have startlen: "start < length points" using lastlen by simp
  have q1: "start + step \<le> ?last" using less.prems(1) by (cases q) simp_all
  have last: "last_idx_of start step ?E = ?last"
    using step less.prems(2,3) E64 by (rule last_idx_of_range)
  have a1: "size_add ?last 1 = ?last + 1"
    using lastlen len64 by (intro size_add_small) simp
  have s1: "size_sub (?last + 1) start = ?last + 1 - start"
    using lastlen len64 by (intro size_sub_le) simp_all
  have guard_eq: "size_sub (size_add ?last 1) start = q * step + 1"
    unfolding a1 s1 by simp
  have guard: "\<not> size_sub (size_add ?last 1) start < 2"
    unfolding guard_eq using q1 step by simp
  have a2: "size_add start step = start + step"
    using q1 lastlen len64 by (intro size_add_small) linarith
  have "start + step + (q - 1) * step = ?last"
    using less.prems(1) by (cases q) simp_all
  then have loop: "rdp_loop points start step ?last (start + step) (0, 0) =
      Some (Inr (far_scan ?a ?b ?ps (start + step) step (0, 0)))"
    using rdp_loop_scan [OF step lastlen len64, of "start + step" "q - 1" start "(0, 0)"] by simp
  have pts: "range_pts points start step q = ?a # ?ps @ [?b]"
    using less.prems(1) by (rule range_pts_ends)
  obtain dm di where scan_i: "far_scan ?a ?b ?ps (start + step) step (0, 0) = (dm, di)"
    by (cases "far_scan ?a ?b ?ps (start + step) step (0, 0)")
  obtain m k where scan_l: "far_scan ?a ?b ?ps 1 1 (0, 0) = (m, k)"
    by (cases "far_scan ?a ?b ?ps 1 1 (0, 0)")
  have dm: "dm = m"
    using far_scan_fst_indep [of "(0, 0)" "(0, 0)" ?a ?b ?ps "start + step" step 1 1]
    unfolding scan_i scan_l by simp
  show ?case
  proof (cases "eps < m")
    case False
    have "rdp points eps out start step e = Some (Inr [?a, ?b])"
      apply (subst rdp.simps)
      apply (simp only: Let_def last a2 loop scan_i)
      using step guard False dm startlen lastlen apply (simp add: vector_at_Inr)
      done
    moreover have "rdp_list eps (?a # ?ps @ [?b]) = [?a, ?b]"
    proof (rule rdp_list_collapse)
      show "fst (far_scan ?a ?b ?ps 1 1 (0, 0)) \<le> eps"
        unfolding scan_l using False by simp
    qed
    ultimately show ?thesis by (simp add: pts)
  next
    case True
    with eps have m0: "0 < m" by simp
    from far_scan_split [OF scan_l] m0 obtain us p vs where
      ps: "?ps = us @ p # vs" and us: "\<forall>u \<in> set us. pdist ?a ?b u < m" and p: "pdist ?a ?b p = m"
      and vs: "\<forall>v \<in> set vs. pdist ?a ?b v \<le> m" and k: "k = Suc (length us)"
      by auto
    have "length ?ps = length (us @ p # vs)" by (simp only: ps)
    then have kq: "k < q" "1 \<le> k" using k by simp_all
    have "far_scan ?a ?b (us @ p # vs) (start + step) step (0, 0) =
            (m, start + step + length us * step)"
      using us _ p vs by (rule far_scan_first_max) (simp add: m0)
    with scan_i ps have di: "di = start + k * step" by (simp add: k)
    have klast: "start + k * step < ?last" using kq step by simp
    have dilen: "di + 1 < length points" using di klast lastlen by linarith
    have di31: "di + 1 < 2 ^ 31" using dilen len by (rule less_trans)
    have a3: "size_add di 1 = di + 1"
      using dilen len64 by (intro size_add_small) (rule less_trans)
    have e1: "end_idx_of points (int_of_size (size_add di 1)) = di + 1"
      unfolding a3 int_of_size_small [OF di31] by (rule end_idx_of_int) simp
    have E0: "0 < ?E" using less.prems(2) by simp
    have e2: "end_idx_of points (int_of_size ?E) = ?E"
      using E31 E0 by (simp add: int_of_size_small end_idx_of_int)
    have rec1: "rdp points eps [] start step (int_of_size (size_add di 1)) =
        Some (Inr (rdp_list eps (range_pts points start step k)))"
    proof (intro less.IH)
      show "k < q" "1 \<le> k" using kq by simp_all
      show "start + k * step < end_idx_of points (int_of_size (size_add di 1))"
        and "end_idx_of points (int_of_size (size_add di 1)) \<le> start + k * step + step"
        and "end_idx_of points (int_of_size (size_add di 1)) \<le> length points"
        unfolding e1 using di dilen step by linarith+
    qed
    have "rdp points eps [] (start + k * step) step (int_of_size ?E) =
        Some (Inr (rdp_list eps (range_pts points (start + k * step) step (q - k))))"
    proof (intro less.IH)
      show "q - k < q" using kq by simp
      show "1 \<le> q - k" using kq by simp
      have "k * step + (q - k) * step = (k + (q - k)) * step"
        by (simp only: add_mult_distrib)
      then have "start + k * step + (q - k) * step = ?last"
        using kq by simp
      then show "start + k * step + (q - k) * step < end_idx_of points (int_of_size ?E)"
        and "end_idx_of points (int_of_size ?E) \<le> start + k * step + (q - k) * step + step"
        using less.prems(2,3) by (simp_all add: e2)
      show "end_idx_of points (int_of_size ?E) \<le> length points"
        using less.prems(4) by (simp add: e2)
    qed
    then have rec2: "rdp points eps [] di step (int_of_size ?E) =
        Some (Inr (rdp_list eps (range_pts points (start + k * step) step (q - k))))"
      by (simp add: di)
    have "range_pts points start step k = take (Suc k) (range_pts points start step q)"
      using kq by (intro range_pts_take) simp
    also have "\<dots> = take (Suc k) (?a # (us @ p # vs) @ [?b])" by (simp only: pts ps)
    also have "\<dots> = ?a # us @ [p]" by (simp add: k)
    finally have t1: "range_pts points start step k = ?a # us @ [p]" .
    have "range_pts points (start + k * step) step (q - k) = drop k (range_pts points start step q)"
      using kq by (intro range_pts_drop) simp
    also have "\<dots> = drop k (?a # (us @ p # vs) @ [?b])" by (simp only: pts ps)
    also have "\<dots> = p # vs @ [?b]" by (simp add: k)
    finally have t2: "range_pts points (start + k * step) step (q - k) = p # vs @ [?b]" .
    from rdp_list_shape [OF eps, of ?a us p]
    have ne: "rdp_list eps (?a # us @ [p]) \<noteq> []" by auto
    have "rdp points eps out start step e =
        Some (Inr (butlast (rdp_list eps (?a # us @ [p])) @ rdp_list eps (p # vs @ [?b])))"
      apply (subst rdp.simps)
      apply (simp only: Let_def last a2 loop scan_i Option.bind.simps sum.case prod.case
               rec1 rec2 t1 t2)
      using step guard True dm ne apply simp
      done
    moreover have "rdp_list eps (?a # us @ p # vs @ [?b]) =
        butlast (rdp_list eps (?a # us @ [p])) @ rdp_list eps (p # vs @ [?b])"
      using us m0 p vs True by (rule rdp_list_split)
    ultimately show ?thesis unfolding pts ps by simp
  qed
qed


lemma range_pts_all: "xs \<noteq> [] \<Longrightarrow> range_pts xs 0 (Suc 0) (length xs - Suc 0) = xs"
  by (simp add: range_pts_def map_nth)

lemma rdp_whole:
  assumes "0 \<le> eps" and "length points < 2 ^ 31" and "2 \<le> length points"
  shows "rdp points eps out 0 1 (- 1) = Some (Inr (rdp_list eps points))"
proof -
  have e: "end_idx_of points (- 1) = length points" by (simp add: end_idx_of_def)
  have "rdp points eps out 0 1 (- 1) =
          Some (Inr (rdp_list eps (range_pts points 0 1 (length points - 1))))"
    using assms(3) by (intro rdp_refines assms(1,2)) (simp_all add: e)
  moreover have "points \<noteq> []" using assms(3) by auto
  ultimately show ?thesis by (simp add: range_pts_all)
qed

lemma rdp_short:
  assumes "length points < 2"
  shows "rdp points eps out 0 1 (- 1) = Some (Inr out)"
proof -
  from assms have "length points = 0 \<or> length points = 1" by arith
  then show ?thesis
    by (subst rdp.simps)
       (auto simp: Let_def end_idx_of_def last_idx_of_def size_sub_def size_add_def size_mul_def)
qed

lemma rdp_list_length:
  assumes "0 \<le> eps" and "2 \<le> length xs"
  shows "2 \<le> length (rdp_list eps xs)" and "length (rdp_list eps xs) \<le> length xs"
    and "hd (rdp_list eps xs) = hd xs" and "last (rdp_list eps xs) = last xs"
proof -
  from two_ends [OF assms(2)] obtain a ps b where xs: "xs = a # ps @ [b]" by blast
  from rdp_list_shape [OF assms(1), of a ps b] obtain M where
    M: "rdp_list eps (a # ps @ [b]) = a # M @ [b]" "length M \<le> length ps" by blast
  show "2 \<le> length (rdp_list eps xs)" and "length (rdp_list eps xs) \<le> length xs"
    and "hd (rdp_list eps xs) = hd xs" and "last (rdp_list eps xs) = last xs"
    using M by (simp_all add: xs)
qed

text \<open>
  Claim C8, amended by \<open>0 \<le> epsilon\<close> (and fewer than \<open>2 ^ 31\<close> points, the
  range of the \<open>int\<close> end index). \<open>rdp\<close>, called on the whole sequence with an
  empty output vector, returns, and called again on its output with the same
  tolerance it returns that output unchanged.
\<close>

theorem rdp_idempotent:
  assumes "0 \<le> epsilon" and "length points < 2 ^ 31"
  shows "\<exists>res. rdp points epsilon [] 0 1 (- 1) = Some (Inr res) \<and>
               rdp res epsilon [] 0 1 (- 1) = Some (Inr res)"
proof (cases "length points < 2")
  case True
  then have "rdp points epsilon [] 0 1 (- 1) = Some (Inr [])" by (rule rdp_short)
  moreover have "rdp [] epsilon [] 0 1 (- 1) = Some (Inr [])" by (rule rdp_short) simp
  ultimately show ?thesis by simp
next
  case False
  then have two: "2 \<le> length points" by simp
  let ?res = "rdp_list epsilon points"
  have r1: "rdp points epsilon [] 0 1 (- 1) = Some (Inr ?res)"
    using assms two by (rule rdp_whole)
  have l2: "2 \<le> length ?res" and lle: "length ?res \<le> length points"
    using rdp_list_length [OF assms(1) two] by simp_all
  from lle assms(2) have l31: "length ?res < 2 ^ 31" by (rule le_less_trans)
  have "rdp ?res epsilon [] 0 1 (- 1) = Some (Inr (rdp_list epsilon ?res))"
    using assms(1) l31 l2 by (rule rdp_whole)
  then have "rdp ?res epsilon [] 0 1 (- 1) = Some (Inr ?res)"
    using assms(1) by (simp add: rdp_list_idem)
  with r1 show ?thesis by blast
qed

theorem rdp_idempotent_witness:
  "(0::real) \<le> 1 / 2 \<and> length [[0, 0], [1, 1], [2, 0 :: real]] < 2 ^ 31 \<and>
   (\<exists>res. rdp [[0, 0], [1, 1], [2, 0]] (1 / 2) [] 0 1 (- 1) = Some (Inr res) \<and>
          rdp res (1 / 2) [] 0 1 (- 1) = Some (Inr res))"
  using rdp_idempotent [of "1 / 2" "[[0, 0], [1, 1], [2, 0]]"] by simp

subsection \<open>A negative tolerance\<close>

lemma rdp_loop_empty: "\<not> idx < last_idx \<Longrightarrow> rdp_loop points start_idx step last_idx idx acc = Some (Inr acc)"
  by (subst rdp_loop.simps) simp

lemma rdp_negative_two_points_aux:
  assumes "rdp points eps out start step e = Some y"
  shows "length points = 2 \<and> eps < 0 \<and> start = 0 \<and> step = 1 \<longrightarrow>
           (e = 1 \<longrightarrow> y = Inr out) \<and> \<not> (e \<le> 0 \<or> e = 2)"
  using assms
proof (induction rule: rdp.raw_induct [rotated 1, consumes 1, case_names step])
  case (step rdp' points eps out start step e y)
  show ?case
  proof (intro impI)
    assume pre: "length points = 2 \<and> eps < 0 \<and> start = 0 \<and> step = 1"
    have l1: "last_idx_of 0 1 1 = 0" and l2: "last_idx_of 0 1 2 = 1"
      by (simp_all add: last_idx_of_def size_sub_def size_add_def size_mul_def)
    have g1: "size_sub (size_add 0 1) 0 = 1" and g2: "size_sub (size_add 1 1) 0 = 2"
      and a1: "size_add 0 1 = 1"
      by (simp_all add: size_sub_def size_add_def)
    have i1: "int_of_size 1 = 1" and i2: "int_of_size 2 = 2"
      by (simp_all add: int_of_size_def)
    have one: "e = 1 \<longrightarrow> y = Inr out"
    proof
      assume e: "e = 1"
      have "end_idx_of points e = 1" by (simp add: e end_idx_of_def)
      with step.hyps pre show "y = Inr out"
        by (simp add: Let_def l1 g1 del: One_nat_def)
    qed
    have bad: "\<not> (e \<le> 0 \<or> e = 2)"
    proof
      assume e: "e \<le> 0 \<or> e = 2"
      then have E: "end_idx_of points e = 2" using pre by (auto simp: end_idx_of_def)
      have lp: "rdp_loop points 0 1 1 1 (0, 0) = Some (Inr (0, 0))"
        by (rule rdp_loop_empty) simp
      from step.hyps pre have
        "Option.bind (rdp' points eps [] 0 1 1)
           (\<lambda>r1. case r1 of
              Inl e \<Rightarrow> Some (Inl e)
            | Inr rec_results_1 \<Rightarrow>
                Option.bind (rdp' points eps [] 0 1 2)
                  (\<lambda>r2. case r2 of
                     Inl e \<Rightarrow> Some (Inl e)
                   | Inr rec_results_2 \<Rightarrow>
                       if rec_results_1 = [] then Some (Inl Undefined)
                       else Some (Inr (butlast rec_results_1 @ rec_results_2)))) = Some y"
        by (simp add: Let_def E l2 g2 a1 lp i1 i2 del: One_nat_def)
      then obtain r1 where r1: "rdp' points eps [] 0 1 1 = Some r1"
        and rest: "(case r1 of
              Inl e \<Rightarrow> Some (Inl e)
            | Inr rec_results_1 \<Rightarrow>
                Option.bind (rdp' points eps [] 0 1 2)
                  (\<lambda>r2. case r2 of
                     Inl e \<Rightarrow> Some (Inl e)
                   | Inr rec_results_2 \<Rightarrow>
                       if rec_results_1 = [] then Some (Inl Undefined)
                       else Some (Inr (butlast rec_results_1 @ rec_results_2)))) = Some y"
        by (auto simp: Option.bind_eq_Some_conv)
      from step.IH [OF r1] pre have "r1 = Inr []" by simp
      with rest obtain r2 where r2: "rdp' points eps [] 0 1 2 = Some r2"
        by (auto simp: Option.bind_eq_Some_conv)
      from step.IH [OF r2] pre show False by simp
    qed
    from one bad show "(e = 1 \<longrightarrow> y = Inr out) \<and> \<not> (e \<le> 0 \<or> e = 2)" ..
  qed
qed

lemma rdp_negative_two_points:
  assumes "length points = 2" and "eps < 0"
  shows "rdp points eps out 0 1 (- 1) = None"
proof (cases "rdp points eps out 0 1 (- 1)")
  case None
  then show ?thesis .
next
  case (Some y)
  from rdp_negative_two_points_aux [OF Some] assms show ?thesis by simp
qed

text \<open>
  Claim C2 as stated, for every epsilon: with two points and the tolerance
  \<open>- 1\<close> the loop leaves \<open>d_max = 0 > epsilon\<close> and \<open>d_max_idx = 0\<close>, and the
  second recursive call is the call itself: \<open>rdp\<close> does not return.
\<close>

theorem rdp_negative_epsilon_diverges:
  "2 \<le> length [[0], [1 :: real]] \<and> rdp [[0], [1]] (- 1) [] 0 1 (- 1) = None"
proof
  show "2 \<le> length [[0], [1 :: real]]" by simp
  show "rdp [[0], [1]] (- 1) [] 0 1 (- 1) = None"
    by (rule rdp_negative_two_points) simp_all
qed

text \<open>
  Claim C8 as stated, for every tolerance: with a negative one there is no
  output to simplify again.
\<close>

theorem rdp_negative_epsilon_no_output:
  "rdp [[0, 0], [1, 1]] (- 2) [] 0 1 (- 1) = None"
  by (rule rdp_negative_two_points) simp_all


subsection \<open>Endpoints and length\<close>

lemma range_quotient:
  fixes step start E :: nat
  assumes "0 < step" and "start + step < E"
  shows "1 \<le> (E - start - 1) div step"
    and "start + (E - start - 1) div step * step < E"
    and "E \<le> start + (E - start - 1) div step * step + step"
proof -
  let ?m = "E - start - 1"
  have "step \<le> ?m" using assms(2) by linarith
  then have "0 < ?m div step" using assms(1) by (simp add: div_greater_zero_iff)
  then show "1 \<le> ?m div step" by simp
  have "?m div step * step \<le> ?m" by (rule div_times_less_eq_dividend)
  then show "start + ?m div step * step < E" using assms(2) by linarith
  have "?m < step + ?m div step * step" using assms(1) by (rule dividend_less_div_times)
  then show "E \<le> start + ?m div step * step + step" by linarith
qed

text \<open>
  Claim C2, amended by \<open>0 \<le> epsilon\<close> (and fewer than \<open>2 ^ 31\<close> points). For a
  range of at least two points inside the vector (\<open>start_idx + step\<close> below the
  end index, the end index at most the size), \<open>rdp\<close> returns; its output
  starts with the first point of the range and ends with the last one,
  \<open>points.at(last_idx)\<close>; it has at least two points and at most as many as the
  range, \<open>n\<close>; and if every intermediate point of the range is within
  \<open>epsilon\<close> of the line through the two endpoints, as \<open>rdp\<close> computes the
  distance, the output is the two endpoints.
\<close>

theorem rdp_keeps_endpoints:
  assumes eps: "0 \<le> epsilon" and len: "length points < 2 ^ 31" and step: "0 < step"
    and two: "start_idx + step < end_idx_of points end_idx_arg"
    and inside: "end_idx_of points end_idx_arg \<le> length points"
  shows "\<exists>res last_idx n.
      last_idx = last_idx_of start_idx step (end_idx_of points end_idx_arg) \<and>
      n = (last_idx - start_idx) div step + 1 \<and>
      rdp points epsilon out start_idx step end_idx_arg = Some (Inr res) \<and>
      hd res = points ! start_idx \<and> last res = points ! last_idx \<and>
      2 \<le> length res \<and> length res \<le> n \<and> n \<le> length points \<and>
      ((\<forall>k. 0 < k \<and> k < n - 1 \<longrightarrow>
          (\<exists>d. point_line_distance (points ! start_idx) (points ! last_idx)
                 (points ! (start_idx + k * step)) = Inr d \<and> d \<le> epsilon)) \<longrightarrow>
       res = [points ! start_idx, points ! last_idx])"
proof -
  let ?E = "end_idx_of points end_idx_arg"
  let ?q = "(?E - start_idx - 1) div step"
  let ?last = "start_idx + ?q * step"
  let ?xs = "range_pts points start_idx step ?q"
  let ?ps = "map (\<lambda>j. points ! (start_idx + step + j * step)) [0..<?q - 1]"
  note q = range_quotient [OF step two]
  have "(2::nat) ^ 31 < 2 ^ 64" by simp
  with len have "length points < 2 ^ 64" by (rule less_trans)
  with inside have E64: "?E < 2 ^ 64" by (rule le_less_trans)
  have last: "last_idx_of start_idx step ?E = ?last"
    using step q(2,3) E64 by (rule last_idx_of_range)
  have n: "(?last - start_idx) div step + 1 = ?q + 1" using step by simp
  have run: "rdp points epsilon out start_idx step end_idx_arg = Some (Inr (rdp_list epsilon ?xs))"
    using step eps len q inside by (rule rdp_refines)
  have xs: "?xs = points ! start_idx # ?ps @ [points ! ?last]"
    using q(1) by (rule range_pts_ends)
  have lxs: "length ?xs = ?q + 1" by (simp add: range_pts_def)
  with q(1) have two_xs: "2 \<le> length ?xs" by simp
  note props = rdp_list_length [OF eps two_xs]
  have hxs: "hd ?xs = points ! start_idx" and lasts: "last ?xs = points ! ?last"
    unfolding xs by simp_all
  have hd: "hd (rdp_list epsilon ?xs) = points ! start_idx" using props(3) hxs by (rule trans)
  have la: "last (rdp_list epsilon ?xs) = points ! ?last" using props(4) lasts by (rule trans)
  have nle: "?q + 1 \<le> length points"
  proof -
    from step have "1 \<le> step" by simp
    then have "?q * 1 \<le> ?q * step" by (rule mult_le_mono2)
    then have "?q \<le> ?q * step" by simp
    with q(2) inside show ?thesis by linarith
  qed
  have collapse: "rdp_list epsilon ?xs = [points ! start_idx, points ! ?last]"
    if near: "\<forall>k. 0 < k \<and> k < ?q + 1 - 1 \<longrightarrow>
          (\<exists>d. point_line_distance (points ! start_idx) (points ! ?last)
                 (points ! (start_idx + k * step)) = Inr d \<and> d \<le> epsilon)"
  proof -
    have "\<forall>p \<in> set ?ps. pdist (points ! start_idx) (points ! ?last) p \<le> epsilon"
    proof
      fix p assume "p \<in> set ?ps"
      then obtain j where j: "j < ?q - 1" and p: "p = points ! (start_idx + step + j * step)"
        by auto
      have "0 < Suc j \<and> Suc j < ?q + 1 - 1" using j by simp
      with near obtain d where
        "point_line_distance (points ! start_idx) (points ! ?last)
           (points ! (start_idx + Suc j * step)) = Inr d" and "d \<le> epsilon"
        by blast
      then show "pdist (points ! start_idx) (points ! ?last) p \<le> epsilon"
        by (simp add: point_line_distance_pdist p add.assoc)
    qed
    then have "fst (far_scan (points ! start_idx) (points ! ?last) ?ps 1 1 (0, 0)) \<le> epsilon"
      using eps by (intro far_scan_bounded) simp_all
    then show ?thesis unfolding xs by (rule rdp_list_collapse)
  qed
  let ?res = "rdp_list epsilon ?xs"
  have len_le: "length ?res \<le> ?q + 1" using props(2) unfolding lxs .
  have "?last = last_idx_of start_idx step ?E \<and>
      ?q + 1 = (?last - start_idx) div step + 1 \<and>
      rdp points epsilon out start_idx step end_idx_arg = Some (Inr ?res) \<and>
      hd ?res = points ! start_idx \<and> last ?res = points ! ?last \<and>
      2 \<le> length ?res \<and> length ?res \<le> ?q + 1 \<and> ?q + 1 \<le> length points \<and>
      ((\<forall>k. 0 < k \<and> k < ?q + 1 - 1 \<longrightarrow>
          (\<exists>d. point_line_distance (points ! start_idx) (points ! ?last)
                 (points ! (start_idx + k * step)) = Inr d \<and> d \<le> epsilon)) \<longrightarrow>
       ?res = [points ! start_idx, points ! ?last])"
  proof (intro conjI impI)
    show "?last = last_idx_of start_idx step ?E" using last by (rule sym)
    show "?q + 1 = (?last - start_idx) div step + 1" using n by (rule sym)
    show "rdp points epsilon out start_idx step end_idx_arg = Some (Inr ?res)" by (rule run)
    show "hd ?res = points ! start_idx" by (rule hd)
    show "last ?res = points ! ?last" by (rule la)
    show "2 \<le> length ?res" by (rule props(1))
    show "length ?res \<le> ?q + 1" by (rule len_le)
    show "?q + 1 \<le> length points" by (rule nle)
    show "?res = [points ! start_idx, points ! ?last]"
      if "\<forall>k. 0 < k \<and> k < ?q + 1 - 1 \<longrightarrow>
          (\<exists>d. point_line_distance (points ! start_idx) (points ! ?last)
                 (points ! (start_idx + k * step)) = Inr d \<and> d \<le> epsilon)"
      using that by (rule collapse)
  qed
  then show ?thesis by blast
qed

lemma collinear_distance: "point_line_distance [0, 0] [2, 0] [1, 0] = Inr 0"
  by (simp add: point_line_distance_def normalise_def checked_div_def)

theorem rdp_keeps_endpoints_witness:
  "(0::real) \<le> 0 \<and> length [[0, 0], [1, 0], [2, 0 :: real]] < 2 ^ 31 \<and> (0::nat) < 1 \<and>
   0 + 1 < end_idx_of [[0, 0], [1, 0], [2, 0 :: real]] (- 1) \<and>
   end_idx_of [[0, 0], [1, 0], [2, 0 :: real]] (- 1) \<le> length [[0, 0], [1, 0], [2, 0 :: real]] \<and>
   point_line_distance [0, 0] [2, 0] [1, 0] = Inr 0 \<and>
   rdp [[0, 0], [1, 0], [2, 0]] 0 [] 0 1 (- 1) = Some (Inr [[0, 0], [2, 0]])"
proof -
  let ?pts = "[[0, 0], [1, 0], [2, 0 :: real]]"
  have E: "end_idx_of ?pts (- 1) = 3" by (simp add: end_idx_of_def)
  have L: "last_idx_of 0 1 3 = 2"
    by (simp add: last_idx_of_def size_sub_def size_add_def size_mul_def)
  have h: "(0::real) \<le> 0" "length ?pts < 2 ^ 31" "(0::nat) < 1"
    "0 + 1 < end_idx_of ?pts (- 1)" "end_idx_of ?pts (- 1) \<le> length ?pts"
    by (simp_all add: E)
  from rdp_keeps_endpoints [OF h, of "[]"] obtain res where
    run: "rdp ?pts 0 [] 0 1 (- 1) = Some (Inr res)"
    and col: "(\<forall>k. 0 < k \<and> k < (2 - 0) div 1 + 1 - 1 \<longrightarrow>
          (\<exists>d. point_line_distance (?pts ! 0) (?pts ! 2) (?pts ! (0 + k * 1)) = Inr d \<and> d \<le> 0)) \<longrightarrow>
       res = [?pts ! 0, ?pts ! 2]"
    unfolding E L by blast
  have "\<forall>k. 0 < k \<and> k < (2 - 0) div 1 + 1 - 1 \<longrightarrow>
          (\<exists>d. point_line_distance (?pts ! 0) (?pts ! 2) (?pts ! (0 + k * 1)) = Inr d \<and> d \<le> 0)"
  proof (intro allI impI)
    fix k :: nat assume "0 < k \<and> k < (2 - 0) div 1 + 1 - 1"
    then have "k = 1" by simp
    then show "\<exists>d. point_line_distance (?pts ! 0) (?pts ! 2) (?pts ! (0 + k * 1)) = Inr d \<and> d \<le> 0"
      using collinear_distance by simp
  qed
  with col have "res = [[0, 0], [2, 0]]" by simp
  with run h collinear_distance show ?thesis by simp
qed


subsection \<open>An example\<close>

text \<open>Three points, the middle one farther than the tolerance: all are kept.\<close>

lemma rdp_example:
  "rdp [[0, 0], [1, 1], [2, 0]] (1 / 2) [] 0 1 (- 1) = Some (Inr [[0, 0], [1, 1], [2, 0]])"
proof -
  have d: "pdist [0, 0] [2, 0] [1, 1] = 1"
    by (simp add: pdist_def)
  have "rdp_list (1 / 2) ([0, 0] # [[1, 1]] @ [[2, 0]]) =
     butlast (rdp_list (1 / 2) ([0, 0] # [] @ [[1, 1]])) @ rdp_list (1 / 2) ([1, 1] # [] @ [[2, 0]])"
    using rdp_list_split [of "[]" "[0, 0]" "[2, 0]" 1 "[1, 1]" "[]" "1 / 2"] d by simp
  also have "rdp_list (1 / 2) ([0, 0] # [] @ [[1, 1]]) = [[0, 0], [1, 1]]"
    by (rule rdp_list_collapse) simp
  also have "rdp_list (1 / 2) ([1, 1] # [] @ [[2, 0]]) = [[1, 1], [2, 0]]"
    by (rule rdp_list_collapse) simp
  finally have "rdp_list (1 / 2) [[0, 0], [1, 1], [2, 0]] = [[0, 0], [1, 1], [2, 0]]" by simp
  then show ?thesis
    using rdp_whole [of "1 / 2" "[[0, 0], [1, 1], [2, 0]]" "[]"] by simp
qed

section \<open>Properties of the distance computation in double arithmetic\<close>

lemma to_double_not_NaN: "to_double x \<noteq> NaN"
  by (simp add: to_double_def)

lemma to_double_zero: "to_double 0 = Fin 0"
  by (simp add: to_double_def rnd_def)

lemma fadd_NaN_right: "fadd x NaN = NaN"
  by (cases x) simp_all

lemma fmul_NaN_right: "fmul x NaN = NaN"
  by (cases x) simp_all

lemma fsub_NaN_right: "fsub x NaN = NaN"
  by (simp add: fsub_def fadd_NaN_right)

lemma fdiv_positive_divisor:
  assumes "fless (Fin 0) mag"
  shows "\<exists>q. fdiv x mag = Inr q \<and> (is_Fin x \<longrightarrow> q \<noteq> NaN)"
proof (cases mag)
  case (Fin m)
  with assms have "m \<noteq> 0" by simp
  with Fin show ?thesis by (cases x) (simp_all add: to_double_not_NaN)
next
  case PInf
  then show ?thesis by (cases x) simp_all
next
  case MInf
  with assms show ?thesis by simp
next
  case NaN
  with assms show ?thesis by simp
qed

lemma collect_all_Inr:
  "\<forall>x \<in> set xs. \<exists>q. f x = Inr q \<and> (P x \<longrightarrow> Q q) \<Longrightarrow>
   \<exists>ds. collect (map f xs) = Inr ds \<and> length ds = length xs \<and>
        ((\<forall>x \<in> set xs. P x) \<longrightarrow> (\<forall>q \<in> set ds. Q q))"
proof (induction xs)
  case Nil
  show ?case by simp
next
  case (Cons x xs)
  then obtain q where q: "f x = Inr q" "P x \<longrightarrow> Q q" by auto
  from Cons obtain ds where ds: "collect (map f xs) = Inr ds" "length ds = length xs"
    "(\<forall>x \<in> set xs. P x) \<longrightarrow> (\<forall>q \<in> set ds. Q q)" by auto
  have "collect (map f (x # xs)) = Inr (q # ds)" by (simp add: q(1) ds(1))
  moreover have "length (q # ds) = length (x # xs)" by (simp add: ds(2))
  moreover have "(\<forall>y \<in> set (x # xs). P y) \<longrightarrow> (\<forall>r \<in> set (q # ds). Q r)"
    using q(2) ds(3) by simp
  ultimately show ?case by blast
qed

lemma normalise_fp_Inr:
  "\<exists>ds. normalise_fp delta mag = Inr ds \<and> length ds = length delta \<and>
        (list_all is_Fin delta \<longrightarrow> NaN \<notin> set ds)"
proof (cases "fless (Fin 0) mag")
  case True
  have "\<forall>x \<in> set delta. \<exists>q. fdiv x mag = Inr q \<and> (is_Fin x \<longrightarrow> q \<noteq> NaN)"
    using fdiv_positive_divisor [OF True] by blast
  from collect_all_Inr [OF this] obtain ds where
    "collect (map (\<lambda>x. fdiv x mag) delta) = Inr ds" "length ds = length delta"
    "(\<forall>x \<in> set delta. is_Fin x) \<longrightarrow> (\<forall>q \<in> set ds. q \<noteq> NaN)" by blast
  with True show ?thesis by (auto simp: normalise_fp_def list_all_iff)
next
  case False
  then show ?thesis by (auto simp: normalise_fp_def list_all_iff)
qed

lemma delta_fp_same: "list_all is_Fin p \<Longrightarrow> delta_fp p p = map (\<lambda>x. Fin 0) p"
proof (induction p)
  case Nil
  show ?case by (simp add: delta_fp_def)
next
  case (Cons x p)
  then obtain r where "x = Fin r" by (cases x) simp_all
  with Cons show ?case by (simp add: delta_fp_def fsub_def to_double_zero)
qed

lemma mag_fp_zero: "mag_fp (map (\<lambda>x. Fin 0) p) = Fin 0"
proof -
  have "foldl (\<lambda>m x. fadd m (fmul x x)) (Fin 0) (map (\<lambda>x. Fin 0) p) = Fin 0"
    by (induction p) (simp_all add: to_double_zero)
  then show ?thesis by (simp add: mag_fp_def to_double_zero)
qed

text \<open>
  Claim C7, amended. In the distance computation of \<open>rdp\<close> the direction vector
  is divided by its magnitude only when \<open>mag > 0.0\<close> holds, so for every
  direction vector and magnitude, whatever their values, no division by zero
  occurs; as long as the components of the direction vector are finite (no
  subtraction has overflowed) no quotient is NaN; for coinciding finite
  endpoints the magnitude is 0 and the division is skipped; and the distance
  computation always runs to its end.
\<close>

theorem rdp_normalise_guarded:
  "normalise_fp delta mag \<noteq> Inl DivisionByZero \<and>
   (\<exists>ds. normalise_fp delta mag = Inr ds) \<and>
   (list_all is_Fin delta \<longrightarrow> (\<exists>ds. normalise_fp delta mag = Inr ds \<and> NaN \<notin> set ds)) \<and>
   (list_all is_Fin q \<longrightarrow>
      mag_fp (delta_fp q q) = Fin 0 \<and>
      normalise_fp (delta_fp q q) (mag_fp (delta_fp q q)) = Inr (map (\<lambda>x. Fin 0) q)) \<and>
   (\<exists>d. point_line_distance_fp p_start p_last p = Inr d)"
proof (intro conjI impI)
  from normalise_fp_Inr [of delta mag]
  show "normalise_fp delta mag \<noteq> Inl DivisionByZero" by auto
  from normalise_fp_Inr [of delta mag]
  show "\<exists>ds. normalise_fp delta mag = Inr ds" by blast
  from normalise_fp_Inr [of delta mag]
  show "\<exists>ds. normalise_fp delta mag = Inr ds \<and> NaN \<notin> set ds" if "list_all is_Fin delta"
    using that by blast
  show "mag_fp (delta_fp q q) = Fin 0" if "list_all is_Fin q"
    using that by (simp add: delta_fp_same mag_fp_zero)
  show "normalise_fp (delta_fp q q) (mag_fp (delta_fp q q)) = Inr (map (\<lambda>x. Fin 0) q)"
    if "list_all is_Fin q"
    using that by (simp add: delta_fp_same mag_fp_zero normalise_fp_def)
  from normalise_fp_Inr [of "delta_fp p_last p_start" "mag_fp (delta_fp p_last p_start)"]
  show "\<exists>d. point_line_distance_fp p_start p_last p = Inr d"
    by (auto simp: point_line_distance_fp_def Let_def)
qed

theorem rdp_normalise_guarded_witness:
  "list_all is_Fin [Fin 3, Fin 4] \<and>
   normalise_fp [Fin 3, Fin 4] (Fin 5) = Inr [to_double (3 / 5), to_double (4 / 5)] \<and>
   NaN \<notin> set [to_double (3 / 5), to_double (4 / 5)] \<and>
   list_all is_Fin [Fin 1, Fin 2] \<and>
   mag_fp (delta_fp [Fin 1, Fin 2] [Fin 1, Fin 2]) = Fin 0 \<and>
   normalise_fp (delta_fp [Fin 1, Fin 2] [Fin 1, Fin 2])
     (mag_fp (delta_fp [Fin 1, Fin 2] [Fin 1, Fin 2])) = Inr [Fin 0, Fin 0]"
proof -
  have n: "normalise_fp [Fin 3, Fin 4] (Fin 5) = Inr [to_double (3 / 5), to_double (4 / 5)]"
    by (simp add: normalise_fp_def)
  note t = rdp_normalise_guarded [of "[Fin 3, Fin 4]" "Fin 5" "[Fin 1, Fin 2]" "[]" "[]" "[]"]
  have f1: "list_all is_Fin [Fin 3, Fin 4]" and f2: "list_all is_Fin [Fin 1, Fin 2]"
    by simp_all
  from t f1 obtain ds where "normalise_fp [Fin 3, Fin 4] (Fin 5) = Inr ds" "NaN \<notin> set ds"
    by blast
  with n have c1: "NaN \<notin> set [to_double (3 / 5), to_double (4 / 5)]" by simp
  from t f2 have c2: "mag_fp (delta_fp [Fin 1, Fin 2] [Fin 1, Fin 2]) = Fin 0"
    and c3: "normalise_fp (delta_fp [Fin 1, Fin 2] [Fin 1, Fin 2])
        (mag_fp (delta_fp [Fin 1, Fin 2] [Fin 1, Fin 2])) = Inr (map (\<lambda>x. Fin 0) [Fin 1, Fin 2])"
    by blast+
  from c3 have c3': "normalise_fp (delta_fp [Fin 1, Fin 2] [Fin 1, Fin 2])
        (mag_fp (delta_fp [Fin 1, Fin 2] [Fin 1, Fin 2])) = Inr [Fin 0, Fin 0]"
    by (simp only: list.map)
  from f1 n c1 f2 c2 c3' show ?thesis by (intro conjI)
qed

text \<open>
  Claim C7 as stated, no NaN from this division for every input: for the finite
  endpoints \<open>(- 2 ^ 1023, 0)\<close> and \<open>(2 ^ 1023, 0)\<close> the difference overflows to
  infinity, so does the magnitude, the guard \<open>mag > 0.0\<close> holds, and the
  quotient of the two infinities is NaN; so is the distance.
\<close>

theorem rdp_normalise_overflow_nan:
  "list_all is_Fin [Fin (- (2 ^ 1023)), Fin 0] \<and> list_all is_Fin [Fin (2 ^ 1023), Fin 0] \<and>
   delta_fp [Fin (2 ^ 1023), Fin 0] [Fin (- (2 ^ 1023)), Fin 0] = [PInf, Fin 0] \<and>
   mag_fp [PInf, Fin 0] = PInf \<and>
   normalise_fp [PInf, Fin 0] PInf = Inr [NaN, Fin 0] \<and>
   point_line_distance_fp [Fin (- (2 ^ 1023)), Fin 0] [Fin (2 ^ 1023), Fin 0] [Fin 0, Fin 1] =
     Inr NaN"
proof -
  have d: "delta_fp [Fin (2 ^ 1023), Fin 0] [Fin (- (2 ^ 1023)), Fin 0] = [PInf, Fin 0]"
    by (simp add: delta_fp_def fsub_def to_double_def rnd_def)
  have m: "mag_fp [PInf, Fin 0] = PInf"
    by (simp add: mag_fp_def to_double_zero)
  have n: "normalise_fp [PInf, Fin 0] PInf = Inr [NaN, Fin 0]"
    by (simp add: normalise_fp_def)
  have "point_line_distance_fp [Fin (- (2 ^ 1023)), Fin 0] [Fin (2 ^ 1023), Fin 0] [Fin 0, Fin 1] =
     Inr NaN"
    unfolding point_line_distance_fp_def d m n Let_def
    by (simp add: fadd_NaN_right fmul_NaN_right fsub_NaN_right)
  with d m n show ?thesis by simp
qed

section \<open>Properties of get_bbox_for_s_values\<close>

lemma minmax_scan_correct:
  fixes key :: "'a \<Rightarrow> real"
  shows "minmax_scan (\<lambda>l r. key l < key r) xs (length pre) (mn, vmn) (mx, vmx) = (rmn, rmx) \<Longrightarrow>
    mn < length pre \<Longrightarrow> mx < length pre \<Longrightarrow> vmn = pre ! mn \<Longrightarrow> vmx = pre ! mx \<Longrightarrow>
    \<forall>x \<in> set pre. key vmn \<le> key x \<Longrightarrow> \<forall>x \<in> set pre. key x \<le> key vmx \<Longrightarrow>
    rmn < length (pre @ xs) \<and> rmx < length (pre @ xs) \<and>
    (\<forall>x \<in> set (pre @ xs). key ((pre @ xs) ! rmn) \<le> key x) \<and>
    (\<forall>x \<in> set (pre @ xs). key x \<le> key ((pre @ xs) ! rmx))"
proof (induction xs arbitrary: pre mn vmn mx vmx)
  case Nil
  then show ?case by simp
next
  case (Cons x xs)
  let ?pre = "pre @ [x]"
  let ?mn = "if key x < key vmn then (length pre, x) else (mn, vmn)"
  let ?mx = "if key x < key vmx then (mx, vmx) else (length pre, x)"
  from Cons.prems(1) have run:
    "minmax_scan (\<lambda>l r. key l < key r) xs (length ?pre) (fst ?mn, snd ?mn) (fst ?mx, snd ?mx) = (rmn, rmx)"
    by simp
  have "rmn < length (?pre @ xs) \<and> rmx < length (?pre @ xs) \<and>
    (\<forall>y \<in> set (?pre @ xs). key ((?pre @ xs) ! rmn) \<le> key y) \<and>
    (\<forall>y \<in> set (?pre @ xs). key y \<le> key ((?pre @ xs) ! rmx))"
  proof (rule Cons.IH [OF run])
    show "fst ?mn < length ?pre" "fst ?mx < length ?pre"
      using Cons.prems(2,3) by simp_all
    show "snd ?mn = ?pre ! fst ?mn" "snd ?mx = ?pre ! fst ?mx"
      using Cons.prems(2-5) by (simp_all add: nth_append)
    show "\<forall>y \<in> set ?pre. key (snd ?mn) \<le> key y"
      using Cons.prems(6) by auto
    show "\<forall>y \<in> set ?pre. key y \<le> key (snd ?mx)"
      using Cons.prems(7) by auto
  qed
  then show ?case by simp
qed

lemma minmax_element_correct:
  fixes key :: "'a \<Rightarrow> real"
  assumes "xs \<noteq> []" and "minmax_element (\<lambda>l r. key l < key r) xs = (rmn, rmx)"
  shows "rmn < length xs" and "rmx < length xs"
    and "key (xs ! rmn) = Min (key ` set xs)" and "key (xs ! rmx) = Max (key ` set xs)"
proof -
  from assms(1) obtain x rest where xs: "xs = x # rest" by (cases xs) auto
  with assms(2) have "minmax_scan (\<lambda>l r. key l < key r) rest (length [x]) (0, x) (0, x) = (rmn, rmx)"
    by (simp add: minmax_element_def)
  from minmax_scan_correct [OF this]
  have r: "rmn < length xs" "rmx < length xs" "\<forall>y \<in> set xs. key (xs ! rmn) \<le> key y"
    "\<forall>y \<in> set xs. key y \<le> key (xs ! rmx)"
    by (simp_all add: xs)
  show "rmn < length xs" "rmx < length xs" by (rule r)+
  show "key (xs ! rmn) = Min (key ` set xs)"
    using r(1,3) by (intro Min_eqI [symmetric]) auto
  show "key (xs ! rmx) = Max (key ` set xs)"
    using r(2,4) by (intro Max_eqI [symmetric]) auto
qed

text \<open>
  Claim C10. For a non-empty list of samples \<open>get_bbox_for_s_values\<close> returns
  a box whose \<open>min\<close> and \<open>max\<close> are the componentwise minima and maxima of
  the projected points. For the empty list both searches return \<open>end()\<close>, and
  the first dereference is one of a past-the-end iterator: undefined behaviour,
  with no guard before it.
\<close>

theorem get_bbox_for_s_values_nonempty_only:
  "(s_values \<noteq> [] \<longrightarrow>
     (\<exists>box. get_bbox_for_s_values s_values get_xyz = Inr box \<and>
        box_min box = (Min (fst ` get_xyz ` set s_values), Min (snd ` get_xyz ` set s_values)) \<and>
        box_max box = (Max (fst ` get_xyz ` set s_values), Max (snd ` get_xyz ` set s_values)))) \<and>
   get_bbox_for_s_values [] get_xyz = Inl Undefined"
proof (intro conjI impI)
  assume ne: "s_values \<noteq> []"
  let ?pts = "map get_xyz s_values"
  have pne: "?pts \<noteq> []" using ne by simp
  obtain xmn xmx where x: "minmax_element (\<lambda>l r. fst l < fst r) ?pts = (xmn, xmx)"
    by (cases "minmax_element (\<lambda>l r :: Vec2D. fst l < fst r) ?pts")
  obtain ymn ymx where y: "minmax_element (\<lambda>l r. snd l < snd r) ?pts = (ymn, ymx)"
    by (cases "minmax_element (\<lambda>l r :: Vec2D. snd l < snd r) ?pts")
  note cx = minmax_element_correct [OF pne x]
  note cy = minmax_element_correct [OF pne y]
  have "get_bbox_for_s_values s_values get_xyz =
      Inr (Box2D_of (fst (?pts ! xmn), snd (?pts ! ymn)) (fst (?pts ! xmx), snd (?pts ! ymx)))"
    using cx(1,2) cy(1,2) by (simp add: get_bbox_for_s_values_def Let_def x y deref_def)
  then show "\<exists>box. get_bbox_for_s_values s_values get_xyz = Inr box \<and>
        box_min box = (Min (fst ` get_xyz ` set s_values), Min (snd ` get_xyz ` set s_values)) \<and>
        box_max box = (Max (fst ` get_xyz ` set s_values), Max (snd ` get_xyz ` set s_values))"
    using cx(3,4) cy(3,4) by (simp add: Box2D_of_def)
next
  show "get_bbox_for_s_values [] get_xyz = Inl Undefined"
    by (simp add: get_bbox_for_s_values_def minmax_element_def deref_def)
qed

theorem get_bbox_for_s_values_nonempty_only_witness:
  "[0, 1, 2, 3 :: real] \<noteq> [] \<and>
   (\<exists>box. get_bbox_for_s_values [0, 1, 2, 3 :: real] (\<lambda>s. (s, (s - 1)\<^sup>2)) = Inr box \<and>
      box_min box = (0, 0) \<and> box_max box = (3, 4)) \<and>
   get_bbox_for_s_values ([] :: real list) (\<lambda>s. (s, (s - 1)\<^sup>2)) = Inl Undefined"
  using get_bbox_for_s_values_nonempty_only [of "[0, 1, 2, 3 :: real]" "\<lambda>s. (s, (s - 1)\<^sup>2)"]
  by simp

section \<open>Properties of RoadSet and get_lanesection\<close>

subsection \<open>RoadSet\<close>

lemma set_insert_sorted:
  fixes key :: "'k \<Rightarrow> 't::linorder"
  assumes "sorted_wrt (\<lambda>a b. key a < key b) xs"
  shows "sorted_wrt (\<lambda>a b. key a < key b) (set_insert (\<lambda>a b. key a < key b) x xs) \<and>
         key ` set (set_insert (\<lambda>a b. key a < key b) x xs) = insert (key x) (key ` set xs)"
  using assms
proof (induction xs)
  case Nil
  show ?case by simp
next
  case (Cons y ys)
  then have ih: "sorted_wrt (\<lambda>a b. key a < key b) (set_insert (\<lambda>a b. key a < key b) x ys)"
    "key ` set (set_insert (\<lambda>a b. key a < key b) x ys) = insert (key x) (key ` set ys)"
    by simp_all
  from Cons.prems have y: "\<forall>z \<in> set ys. key y < key z" by simp
  show ?case
  proof (cases "key x < key y")
    case True
    with Cons.prems y show ?thesis by (auto intro: less_trans)
  next
    case False
    show ?thesis
    proof (cases "key y < key x")
      case True
      have "\<forall>z \<in> set (set_insert (\<lambda>a b. key a < key b) x ys). key y < key z"
      proof
        fix z assume "z \<in> set (set_insert (\<lambda>a b. key a < key b) x ys)"
        then have "key z \<in> insert (key x) (key ` set ys)" using ih(2) by blast
        with True y show "key y < key z" by auto
      qed
      with True False ih show ?thesis by auto
    next
      case eq: False
      with False have "key x = key y" by simp
      with False eq Cons.prems show ?thesis by auto
    qed
  qed
qed

lemma RoadSet_fold:
  assumes "sorted_wrt (\<lambda>a b. road_id (pointee a) < road_id (pointee b)) s"
  shows "sorted_wrt (\<lambda>a b. road_id (pointee a) < road_id (pointee b))
           (foldl (\<lambda>s r. RoadSet_insert r s) s rs) \<and>
         (road_id \<circ> pointee) ` set (foldl (\<lambda>s r. RoadSet_insert r s) s rs) =
           (road_id \<circ> pointee) ` (set s \<union> set rs)"
  using assms
proof (induction rs arbitrary: s)
  case Nil
  then show ?case by simp
next
  case (Cons r rs)
  have cmp: "SharedPtrCmp road_id = (\<lambda>a b :: 'a Road shared_ptr. (road_id \<circ> pointee) a < (road_id \<circ> pointee) b)"
    by (auto simp: SharedPtrCmp_def fun_eq_iff)
  from Cons.prems have "sorted_wrt (\<lambda>a b. (road_id \<circ> pointee) a < (road_id \<circ> pointee) b) s" by simp
  from set_insert_sorted [OF this, of r]
  have s: "sorted_wrt (\<lambda>a b. road_id (pointee a) < road_id (pointee b)) (RoadSet_insert r s)"
    and k: "(road_id \<circ> pointee) ` set (RoadSet_insert r s) = insert ((road_id \<circ> pointee) r) ((road_id \<circ> pointee) ` set s)"
    by (simp_all add: RoadSet_insert_def cmp)
  from Cons.IH [OF s] k show ?case by auto
qed

text \<open>
  Claim C9. A \<open>RoadSet\<close> is ordered by the \<open>id\<close> of the roads pointed to, not
  by the pointers: whatever pointers are inserted, in whatever order, the
  iteration visits the ids in strictly ascending order, each id once. Inserting
  roads with the ids 3, 1, 2 gives the order 1, 2, 3; inserting two road
  objects with the id 2, at any two addresses, leaves the first one alone.
\<close>

theorem RoadSet_ordered_by_id:
  "map (road_id \<circ> pointee) (RoadSet_of rs) = sorted_list_of_set (set (map (road_id \<circ> pointee) rs)) \<and>
   sorted_wrt (<) (map (road_id \<circ> pointee) (RoadSet_of rs)) \<and>
   RoadSet_of [SharedPtr a3 (r\<lparr>road_id := 3\<rparr>), SharedPtr a1 (r\<lparr>road_id := 1\<rparr>), SharedPtr a2 (r\<lparr>road_id := 2\<rparr>)]
     = [SharedPtr a1 (r\<lparr>road_id := 1\<rparr>), SharedPtr a2 (r\<lparr>road_id := 2\<rparr>), SharedPtr a3 (r\<lparr>road_id := 3\<rparr>)] \<and>
   RoadSet_of [SharedPtr a (r\<lparr>road_id := 2\<rparr>), SharedPtr b (r'\<lparr>road_id := 2\<rparr>)] =
     [SharedPtr a (r\<lparr>road_id := 2\<rparr>)]"
proof (intro conjI)
  let ?key = "road_id \<circ> pointee :: 'a Road shared_ptr \<Rightarrow> int"
  from RoadSet_fold [of "[]" rs]
  have s: "sorted_wrt (\<lambda>a b. ?key a < ?key b) (RoadSet_of rs)"
    and k: "?key ` set (RoadSet_of rs) = ?key ` set rs"
    by (simp_all add: RoadSet_of_def)
  from s show st: "sorted_wrt (<) (map ?key (RoadSet_of rs))" by (simp add: sorted_wrt_map)
  then have "sorted (map ?key (RoadSet_of rs))" "distinct (map ?key (RoadSet_of rs))"
    by (simp_all add: strict_sorted_iff)
  then have "sorted_list_of_set (set (map ?key (RoadSet_of rs))) = map ?key (RoadSet_of rs)"
    by (intro sorted_list_of_set.idem_if_sorted_distinct) simp_all
  with k show "map ?key (RoadSet_of rs) = sorted_list_of_set (set (map ?key rs))" by simp
  show "RoadSet_of [SharedPtr a3 (r\<lparr>road_id := 3\<rparr>), SharedPtr a1 (r\<lparr>road_id := 1\<rparr>), SharedPtr a2 (r\<lparr>road_id := 2\<rparr>)]
     = [SharedPtr a1 (r\<lparr>road_id := 1\<rparr>), SharedPtr a2 (r\<lparr>road_id := 2\<rparr>), SharedPtr a3 (r\<lparr>road_id := 3\<rparr>)]"
    by (simp add: RoadSet_of_def RoadSet_insert_def SharedPtrCmp_def)
  show "RoadSet_of [SharedPtr a (r\<lparr>road_id := 2\<rparr>), SharedPtr b (r'\<lparr>road_id := 2\<rparr>)] =
     [SharedPtr a (r\<lparr>road_id := 2\<rparr>)]"
    by (simp add: RoadSet_of_def RoadSet_insert_def SharedPtrCmp_def)
qed


subsection \<open>get_lanesection\<close>

lemma floor_lookup_none: "\<forall>e \<in> set m. s < fst e \<Longrightarrow> floor_lookup m s = None"
  by (induction m s rule: floor_lookup.induct) auto

lemma sorted_keys_nth:
  "sorted_wrt (<) (map fst m) \<Longrightarrow> i < j \<Longrightarrow> j < length m \<Longrightarrow> fst (m ! i) < fst (m ! j)"
  using sorted_wrt_nth_less [of "(<)" "map fst m" i j] by simp

lemma floor_lookup_interval:
  "sorted_wrt (<) (map fst m) \<Longrightarrow> i < length m \<Longrightarrow> fst (m ! i) \<le> s \<Longrightarrow>
   (Suc i < length m \<longrightarrow> s < fst (m ! Suc i)) \<Longrightarrow> floor_lookup m s = Some (snd (m ! i))"
proof (induction m arbitrary: i)
  case Nil
  then show ?case by simp
next
  case (Cons e m)
  obtain k v where e: "e = (k, v)" by (cases e)
  show ?case
  proof (cases i)
    case 0
    have "\<forall>e' \<in> set m. s < fst e'"
    proof
      fix e' assume "e' \<in> set m"
      then obtain j where j: "j < length m" "e' = m ! j" by (auto simp: in_set_conv_nth)
      show "s < fst e'"
      proof (cases j)
        case 0
        with Cons.prems(4) j \<open>i = 0\<close> show ?thesis by auto
      next
        case (Suc j')
        have "fst ((e # m) ! Suc 0) < fst ((e # m) ! Suc j)"
          using Cons.prems(1) j(1) Suc by (intro sorted_keys_nth) simp_all
        moreover have "s < fst ((e # m) ! Suc 0)" using Cons.prems(4) j(1) \<open>i = 0\<close> by auto
        ultimately show ?thesis using j(2) by simp
      qed
    qed
    then have "floor_lookup m s = None" by (rule floor_lookup_none)
    with Cons.prems(3) 0 show ?thesis by (simp add: e)
  next
    case (Suc i')
    have "fst ((e # m) ! 0) < fst ((e # m) ! i)"
      using Cons.prems(1,2) Suc by (intro sorted_keys_nth) simp_all
    with Cons.prems(3) have ks: "k \<le> s" by (simp add: e)
    have "floor_lookup m s = Some (snd (m ! i'))"
      using Cons.prems Suc by (intro Cons.IH) simp_all
    with ks Suc show ?thesis by (simp add: e)
  qed
qed

lemma floor_index:
  fixes s :: real
  shows "m \<noteq> [] \<Longrightarrow> fst (hd m) \<le> s \<Longrightarrow>
   \<exists>i < length m. fst (m ! i) \<le> s \<and> (Suc i < length m \<longrightarrow> s < fst (m ! Suc i))"
proof (induction m)
  case Nil
  then show ?case by simp
next
  case (Cons e m)
  show ?case
  proof (cases "m \<noteq> [] \<and> fst (hd m) \<le> s")
    case True
    with Cons.IH obtain i where "i < length m" "fst (m ! i) \<le> s"
      "Suc i < length m \<longrightarrow> s < fst (m ! Suc i)" by blast
    then have "Suc i < length (e # m) \<and> fst ((e # m) ! Suc i) \<le> s \<and>
        (Suc (Suc i) < length (e # m) \<longrightarrow> s < fst ((e # m) ! Suc (Suc i)))" by simp
    then show ?thesis by blast
  next
    case False
    then have "Suc 0 < length (e # m) \<longrightarrow> s < fst ((e # m) ! Suc 0)"
      by (cases m) auto
    with Cons.prems have "0 < length (e # m) \<and> fst ((e # m) ! 0) \<le> s \<and>
        (Suc 0 < length (e # m) \<longrightarrow> s < fst ((e # m) ! Suc 0))" by simp
    then show ?thesis by blast
  qed
qed

text \<open>
  Claim C1. For a road that satisfies the invariant of the data model and
  \<open>s\<close> in \<open>[0, length)\<close>, \<open>get_lanesection s\<close> is the entry with the greatest key
  \<open>\<le> s\<close>, and \<open>s\<close> is below the next key (half-open intervals); at a key
  \<open>s0_k\<close> it is section \<open>k\<close>; outside \<open>[0, length)\<close> no section is found.
\<close>

theorem get_lanesection_floor:
  assumes inv: "road_invariant road"
  shows "(0 \<le> s \<and> s < road_length road \<longrightarrow>
           (\<exists>i < length (s0_to_lanesection road).
              get_lanesection road s = Some (snd (s0_to_lanesection road ! i)) \<and>
              fst (s0_to_lanesection road ! i) \<le> s \<and>
              (\<forall>j < length (s0_to_lanesection road).
                 fst (s0_to_lanesection road ! j) \<le> s \<longrightarrow>
                 fst (s0_to_lanesection road ! j) \<le> fst (s0_to_lanesection road ! i)) \<and>
              (Suc i < length (s0_to_lanesection road) \<longrightarrow>
                 s < fst (s0_to_lanesection road ! Suc i)))) \<and>
         (\<forall>k < length (s0_to_lanesection road).
            get_lanesection road (fst (s0_to_lanesection road ! k)) =
              Some (snd (s0_to_lanesection road ! k))) \<and>
         (s < 0 \<or> road_length road \<le> s \<longrightarrow> get_lanesection road s = None)"
proof (intro conjI impI allI)
  let ?m = "s0_to_lanesection road"
  from inv have sorted: "sorted_wrt (<) (map fst ?m)" and ne: "?m \<noteq> []"
    and first: "fst (hd ?m) = 0"
    and keys: "\<And>k. k < length ?m \<Longrightarrow> 0 \<le> fst (?m ! k) \<and> fst (?m ! k) < road_length road"
    by (auto simp: road_invariant_def list_all_length)
  {
    assume s: "0 \<le> s \<and> s < road_length road"
    with first have "fst (hd ?m) \<le> s" by simp
    from floor_index [OF ne this] obtain i where i: "i < length ?m" "fst (?m ! i) \<le> s"
      "Suc i < length ?m \<longrightarrow> s < fst (?m ! Suc i)" by blast
    have look: "get_lanesection road s = Some (snd (?m ! i))"
      using s floor_lookup_interval [OF sorted i] by (simp add: get_lanesection_def)
    have greatest: "\<forall>j < length ?m. fst (?m ! j) \<le> s \<longrightarrow> fst (?m ! j) \<le> fst (?m ! i)"
    proof (intro allI impI)
      fix j assume j: "j < length ?m" "fst (?m ! j) \<le> s"
      show "fst (?m ! j) \<le> fst (?m ! i)"
      proof (cases "j \<le> i")
        case True
        then show ?thesis
          using sorted_keys_nth [OF sorted, of j i] i(1) by (cases "j = i") auto
      next
        case False
        then have "Suc i \<le> j" by simp
        then have "fst (?m ! Suc i) \<le> fst (?m ! j)"
          using sorted_keys_nth [OF sorted, of "Suc i" j] j(1) by (cases "Suc i = j") auto
        moreover have "s < fst (?m ! Suc i)" using i(3) False j(1) by simp
        ultimately show ?thesis using j(2) by simp
      qed
    qed
    from i look greatest
    show "\<exists>i < length ?m. get_lanesection road s = Some (snd (?m ! i)) \<and> fst (?m ! i) \<le> s \<and>
        (\<forall>j < length ?m. fst (?m ! j) \<le> s \<longrightarrow> fst (?m ! j) \<le> fst (?m ! i)) \<and>
        (Suc i < length ?m \<longrightarrow> s < fst (?m ! Suc i))"
      by blast
  }
  {
    fix k assume k: "k < length ?m"
    have "Suc k < length ?m \<longrightarrow> fst (?m ! k) < fst (?m ! Suc k)"
      using sorted_keys_nth [OF sorted, of k "Suc k"] by simp
    with floor_lookup_interval [OF sorted k, of "fst (?m ! k)"] keys [OF k]
    show "get_lanesection road (fst (?m ! k)) = Some (snd (?m ! k))"
      by (simp add: get_lanesection_def)
  }
  {
    assume "s < 0 \<or> road_length road \<le> s"
    then show "get_lanesection road s = None" by (auto simp: get_lanesection_def)
  }
qed

theorem get_lanesection_floor_witness:
  "road_invariant \<lparr>road_id = 7, junction = - 1, road_length = 5,
      s0_to_lanesection = [(0, ''a''), (2, ''b''), (4, ''c'')]\<rparr> \<and>
   (0::real) \<le> 3 \<and> (3::real) < 5 \<and>
   get_lanesection \<lparr>road_id = 7, junction = - 1, road_length = 5,
      s0_to_lanesection = [(0, ''a''), (2, ''b''), (4, ''c'')]\<rparr> 3 = Some ''b'' \<and>
   get_lanesection \<lparr>road_id = 7, junction = - 1, road_length = 5,
      s0_to_lanesection = [(0, ''a''), (2, ''b''), (4, ''c'')]\<rparr> 2 = Some ''b'' \<and>
   ((5::real) < 0 \<or> (5::real) \<le> 5) \<and>
   get_lanesection \<lparr>road_id = 7, junction = - 1, road_length = 5,
      s0_to_lanesection = [(0, ''a''), (2, ''b''), (4, ''c'')]\<rparr> 5 = None"
proof -
  define road :: "string Road" where "road = \<lparr>road_id = 7, junction = - 1, road_length = 5,
      s0_to_lanesection = [(0, ''a''), (2, ''b''), (4, ''c'')]\<rparr>"
  have inv: "road_invariant road" by (simp add: road_invariant_def road_def)
  have m: "s0_to_lanesection road = [(0, ''a''), (2, ''b''), (4, ''c'')]" by (simp add: road_def)
  have l: "road_length road = 5" by (simp add: road_def)
  note thm3 = get_lanesection_floor [OF inv, of 3]
  from thm3 have "(0::real) \<le> 3 \<and> 3 < road_length road \<longrightarrow>
           (\<exists>i < length (s0_to_lanesection road).
              get_lanesection road 3 = Some (snd (s0_to_lanesection road ! i)) \<and>
              fst (s0_to_lanesection road ! i) \<le> 3 \<and>
              (\<forall>j < length (s0_to_lanesection road).
                 fst (s0_to_lanesection road ! j) \<le> 3 \<longrightarrow>
                 fst (s0_to_lanesection road ! j) \<le> fst (s0_to_lanesection road ! i)) \<and>
              (Suc i < length (s0_to_lanesection road) \<longrightarrow>
                 3 < fst (s0_to_lanesection road ! Suc i)))"
    by (rule conjunct1)
  then obtain i where i: "i < length (s0_to_lanesection road)"
     "get_lanesection road 3 = Some (snd (s0_to_lanesection road ! i))"
     "fst (s0_to_lanesection road ! i) \<le> 3"
     "Suc i < length (s0_to_lanesection road) \<longrightarrow> 3 < fst (s0_to_lanesection road ! Suc i)"
    unfolding l by auto
  from i(1) have "i = 0 \<or> i = 1 \<or> i = 2" unfolding m by simp arith
  with i(3,4) have "i = 1" unfolding m by auto
  with i(2) have inner: "get_lanesection road 3 = Some ''b''" unfolding m by simp
  from thm3 have "\<forall>k < length (s0_to_lanesection road).
            get_lanesection road (fst (s0_to_lanesection road ! k)) =
              Some (snd (s0_to_lanesection road ! k))"
    by (rule conjunct2 [THEN conjunct1])
  then have "1 < length (s0_to_lanesection road) \<longrightarrow>
      get_lanesection road (fst (s0_to_lanesection road ! 1)) = Some (snd (s0_to_lanesection road ! 1))"
    by (rule spec)
  then have boundary: "get_lanesection road 2 = Some ''b''" unfolding m by simp
  from get_lanesection_floor [OF inv, of 5]
  have "(5::real) < 0 \<or> road_length road \<le> 5 \<longrightarrow> get_lanesection road 5 = None"
    by (rule conjunct2 [THEN conjunct2])
  then have outside: "get_lanesection road 5 = None" unfolding l by simp
  from inv inner boundary outside show ?thesis unfolding road_def by simp
qed

end
